theory Spec2Isabelle
  imports Main "HOL-Library.Word" "HOL-Library.Sublist"
begin

section \<open>JavaScript strings and JSON values\<close>

text \<open>
  A JavaScript string is a sequence of UTF-16 code units: \<open>s.length\<close>, \<open>s.slice\<close>
  and \<open>s.indexOf\<close> count code units, whereas \<open>Buffer.byteLength(s)\<close> counts the bytes
  of the UTF-8 encoding of \<open>s\<close>.
\<close>

type_synonym jschar = "16 word"
type_synonym jsstring = "jschar list"

definition js :: "string \<Rightarrow> jsstring" where
  "js s = map of_char s"

text \<open>
  The values \<open>JSON.parse\<close> returns. Numbers are the integer-valued ones (request ids,
  process ids, ports); an object lists its properties in order, each key once.
  Property access yields \<open>None\<close> for JavaScript's \<open>undefined\<close>.
\<close>

datatype json =
    JNull
  | JBool bool
  | JNum int
  | JStr jsstring
  | JArr "json list"
  | JObj "(jsstring \<times> json) list"

section \<open>daemon.ts: JSON-RPC message utilities\<close>

subsection \<open>Library functions used by the framer\<close>

text \<open>\<open>Buffer.byteLength(s)\<close>: the length of the UTF-8 encoding. A surrogate pair is one
  code point of four bytes; a lone surrogate is encoded as U+FFFD, three bytes.\<close>

fun byteLength :: "jsstring \<Rightarrow> nat" where
  "byteLength [] = 0"
| "byteLength [c] = (if c < 0x80 then 1 else if c < 0x800 then 2 else 3)"
| "byteLength (c # d # cs) =
     (if c < 0x80 then 1 + byteLength (d # cs)
      else if c < 0x800 then 2 + byteLength (d # cs)
      else if 0xD800 \<le> c \<and> c < 0xDC00 \<and> 0xDC00 \<le> d \<and> d < 0xE000 then 4 + byteLength cs
      else 3 + byteLength (d # cs))"

text \<open>The decimal numeral a template literal prints for a non-negative integer.\<close>

definition digit_char :: "nat \<Rightarrow> jschar" where
  "digit_char d = 0x30 + of_nat d"

function decimal :: "nat \<Rightarrow> jsstring" where
  "decimal n = (if n < 10 then [digit_char n] else decimal (n div 10) @ [digit_char (n mod 10)])"
  by pat_completeness auto
termination
  by (relation "measure id") auto

declare decimal.simps [simp del]

text \<open>\<open>s.indexOf(pat)\<close>: the least index at which \<open>pat\<close> occurs, \<open>None\<close> for \<open>-1\<close>.\<close>

fun indexOf :: "jsstring \<Rightarrow> jsstring \<Rightarrow> nat option" where
  "indexOf pat [] = (if pat = [] then Some 0 else None)"
| "indexOf pat (c # cs) =
     (if prefix pat (c # cs) then Some 0 else map_option Suc (indexOf pat cs))"

definition CRLFCRLF :: jsstring where
  "CRLFCRLF = [0x0D, 0x0A, 0x0D, 0x0A]"

text \<open>
  \<open>header.match(/Content-Length: (\d+)/i)\<close>: the leftmost position at which the literal
  matches ignoring case and at least one digit follows; the capture is the maximal run of
  digits there. Without the \<open>u\<close> flag, ignoring case compares the upper-case forms, and a code
  unit of 128 or more is never identified with an ASCII one, so only the ASCII letters fold.
\<close>

definition isDigit :: "jschar \<Rightarrow> bool" where
  "isDigit c \<longleftrightarrow> 0x30 \<le> c \<and> c \<le> 0x39"

definition canonicalize :: "jschar \<Rightarrow> jschar" where
  "canonicalize c = (if 0x61 \<le> c \<and> c \<le> 0x7A then c - 0x20 else c)"

definition matchHere :: "jsstring \<Rightarrow> jsstring option" where
  "matchHere s =
     (let lit = js ''Content-Length: '';
          rest = drop (length lit) s;
          digits = takeWhile isDigit rest
      in if map canonicalize (take (length lit) s) = map canonicalize lit \<and> digits \<noteq> []
         then Some digits else None)"

fun matchContentLength :: "jsstring \<Rightarrow> jsstring option" where
  "matchContentLength [] = None"
| "matchContentLength (c # cs) =
     (case matchHere (c # cs) of Some digits \<Rightarrow> Some digits
      | None \<Rightarrow> matchContentLength cs)"

text \<open>\<open>parseInt(digits, 10)\<close> on a non-empty string of decimal digits.\<close>

definition digit_val :: "jschar \<Rightarrow> nat" where
  "digit_val c = unat c - 48"

definition parseInt10 :: "jsstring \<Rightarrow> nat" where
  "parseInt10 ds = foldl (\<lambda>n c. 10 * n + digit_val c) 0 ds"

subsection \<open>encodeMessage and parseMessages\<close>

text \<open>
  \<open>JSON.stringify\<close> and \<open>JSON.parse\<close> belong to the JavaScript runtime; the framer takes
  them as the parameters \<open>stringify\<close> and \<open>parse\<close>, where \<open>parse s = None\<close> stands for
  \<open>JSON.parse\<close> throwing a \<open>SyntaxError\<close>.
\<close>

definition encodeMessage :: "('m \<Rightarrow> jsstring) \<Rightarrow> 'm \<Rightarrow> jsstring" where
  "encodeMessage stringify msg =
     (let content = stringify msg
      in js ''Content-Length: '' @ decimal (byteLength content) @ CRLFCRLF @ content)"

text \<open>
  The \<open>while (true)\<close> loop of \<open>parseMessages\<close>, with the loop variables \<open>messages\<close> and
  \<open>remaining\<close> as arguments. The result is \<open>None\<close> if the loop never exits. The \<open>try\<close>
  around \<open>JSON.parse\<close> drops a payload that does not parse. The source's \<open>start\<close> is
  \<open>headerEnd + 4\<close> and its \<open>end\<close> is \<open>headerEnd + 4 + parseInt10 digits\<close>, so that
  \<open>remaining.slice(start, end)\<close> takes \<open>parseInt10 digits\<close> code units after dropping
  \<open>headerEnd + 4\<close>. The length is a JavaScript
  number; it is modelled as a natural number, which decides \<open>remaining.length < end\<close> the
  same way, since a string is shorter than \<open>2^53\<close> code units and rounding a larger length
  to a double keeps it above that.
\<close>

partial_function (option) parseMessages_loop ::
  "(jsstring \<Rightarrow> 'm option) \<Rightarrow> 'm list \<Rightarrow> jsstring \<Rightarrow> ('m list \<times> jsstring) option" where
  "parseMessages_loop parse messages remaining =
     (case indexOf CRLFCRLF remaining of
        None \<Rightarrow> Some (messages, remaining)
      | Some headerEnd \<Rightarrow>
          (case matchContentLength (take headerEnd remaining) of
             None \<Rightarrow> parseMessages_loop parse messages (drop (headerEnd + 4) remaining)
           | Some digits \<Rightarrow>
               (if length remaining < headerEnd + 4 + parseInt10 digits
                then Some (messages, remaining)
                else parseMessages_loop parse
                       (case parse (take (parseInt10 digits) (drop (headerEnd + 4) remaining)) of
                          Some m \<Rightarrow> messages @ [m]
                        | None \<Rightarrow> messages)
                       (drop (headerEnd + 4 + parseInt10 digits) remaining))))"

declare parseMessages_loop.simps [code]

definition parseMessages ::
  "(jsstring \<Rightarrow> 'm option) \<Rightarrow> jsstring \<Rightarrow> ('m list \<times> jsstring) option" where
  "parseMessages parse buffer = parseMessages_loop parse [] buffer"


section \<open>daemon.ts: daemon state\<close>

datatype error = TypeError | NoFreePort | RustAnalyzerNotFound

text \<open>
  Property access \<open>v.key\<close> on a value that may be \<open>undefined\<close> (\<open>None\<close>): it throws a
  \<open>TypeError\<close> on \<open>undefined\<close> and \<open>null\<close>, reads the property of an object, and is
  \<open>undefined\<close> on every other value for the keys this program reads.
\<close>

definition get_prop :: "json \<Rightarrow> jsstring \<Rightarrow> json option" where
  "get_prop v key = (case v of JObj props \<Rightarrow> map_of props key | _ \<Rightarrow> None)"

definition member :: "json option \<Rightarrow> jsstring \<Rightarrow> error + json option" where
  "member v key =
     (case v of
        None \<Rightarrow> Inl TypeError
      | Some JNull \<Rightarrow> Inl TypeError
      | Some w \<Rightarrow> Inr (get_prop w key))"

definition STATE_DIR :: jsstring where
  "STATE_DIR = js ''/tmp/claude-lsp''"

definition BASE_PORT :: nat where
  "BASE_PORT = 19200"

text \<open>
  \<open>hashPath\<close> is the first eight hexadecimal digits of the SHA-256 digest; the digest is the
  crypto library's and is the parameter \<open>hashPath\<close> below. \<open>join\<close> of the directory and a
  file name without separators puts one \<open>/\<close> between them.
\<close>

definition getStatePath :: "(jsstring \<Rightarrow> jsstring) \<Rightarrow> jsstring \<Rightarrow> jsstring" where
  "getStatePath hashPath projectPath =
     STATE_DIR @ js ''/'' @ js ''ra-'' @ hashPath projectPath @ js ''.json''"

text \<open>
  The outcome of \<open>process.kill(pid, 0)\<close> for the value found under \<open>pid\<close>: the call
  returns (signal 0 could be sent), or it throws because no process has this id (ESRCH),
  because the process exists but the caller may not signal it (EPERM), or because the
  value is no process id. The operating system and the runtime decide it; it is the
  parameter \<open>kill0\<close> below. A process with the id exists in the first and the third case.
\<close>

datatype kill_result = Signalled | ESRCH | EPERM | InvalidPid

definition process_exists :: "kill_result \<Rightarrow> bool" where
  "process_exists r = (r = Signalled \<or> r = EPERM)"

text \<open>\<open>isProcessRunning\<close>: \<open>true\<close> when the call returns, \<open>false\<close> whatever it throws.\<close>

definition isProcessRunning :: "(json option \<Rightarrow> kill_result) \<Rightarrow> json option \<Rightarrow> bool" where
  "isProcessRunning kill0 pid = (case kill0 pid of Signalled \<Rightarrow> True | _ \<Rightarrow> False)"

text \<open>
  The file system is a map from paths to file contents: \<open>existsSync\<close> is membership in its
  domain, \<open>readFileSync\<close> the lookup and \<open>unlinkSync\<close> the removal. \<open>getDaemonState\<close>
  returns the state, \<open>None\<close> for \<open>null\<close>, and the file system it leaves. Everything thrown
  inside the \<open>try\<close> is caught and leads to \<open>return null\<close>.
\<close>

type_synonym filesystem = "jsstring \<rightharpoonup> jsstring"

definition getDaemonState ::
  "(jsstring \<Rightarrow> jsstring) \<Rightarrow> (jsstring \<Rightarrow> json option) \<Rightarrow> (json option \<Rightarrow> kill_result) \<Rightarrow>
   filesystem \<Rightarrow> jsstring \<Rightarrow> json option \<times> filesystem" where
  "getDaemonState hashPath parse kill0 fs projectPath =
     (let statePath = getStatePath hashPath projectPath
      in case fs statePath of
           None \<Rightarrow> (None, fs)
         | Some text \<Rightarrow>
             (case parse text of
                None \<Rightarrow> (None, fs)
              | Some state \<Rightarrow>
                  (case member (Some state) (js ''pid'') of
                     Inl e \<Rightarrow> (None, fs)
                   | Inr pid \<Rightarrow>
                       if isProcessRunning kill0 pid then (Some state, fs)
                       else (None, fs(statePath := None)))))"

section \<open>daemon.ts: port allocation\<close>

text \<open>
  \<open>bound\<close> is the set of ports on which \<open>Bun.listen\<close> throws. A successful \<open>listen\<close> binds
  the port and \<open>server.stop()\<close> releases it.
\<close>

definition listen :: "nat set \<Rightarrow> nat \<Rightarrow> nat set option" where
  "listen bound port = (if port \<in> bound then None else Some (insert port bound))"

definition stop :: "nat set \<Rightarrow> nat \<Rightarrow> nat set" where
  "stop bound port = bound - {port}"

function findFreePort_loop :: "nat set \<Rightarrow> nat \<Rightarrow> nat \<Rightarrow> (error + nat) \<times> nat set" where
  "findFreePort_loop bound start port =
     (if port < start + 100 then
        (case listen bound port of
           Some bound' \<Rightarrow> (Inr port, stop bound' port)
         | None \<Rightarrow> findFreePort_loop bound start (port + 1))
      else (Inl NoFreePort, bound))"
  by pat_completeness auto
termination
  by (relation "measure (\<lambda>(bound, start, port). start + 100 - port)") auto

definition findFreePort :: "nat set \<Rightarrow> nat \<Rightarrow> (error + nat) \<times> nat set" where
  "findFreePort bound start = findFreePort_loop bound start start"

text \<open>\<open>parseInt(s, 16)\<close> on a string of hexadecimal digits.\<close>

definition hex_val :: "jschar \<Rightarrow> nat" where
  "hex_val c =
     (if 0x30 \<le> c \<and> c \<le> 0x39 then unat c - 48
      else if 0x61 \<le> c \<and> c \<le> 0x66 then unat c - 87
      else unat c - 55)"

definition parseInt16 :: "jsstring \<Rightarrow> nat" where
  "parseInt16 ds = foldl (\<lambda>n c. 16 * n + hex_val c) 0 ds"

text \<open>
  \<open>spawnDaemon\<close> up to the port it allocates (line 154): \<open>raPath\<close> is what
  \<open>findRustAnalyzer\<close> returned.
\<close>

definition spawnDaemon_port ::
  "(jsstring \<Rightarrow> jsstring) \<Rightarrow> jsstring option \<Rightarrow> nat set \<Rightarrow> jsstring \<Rightarrow> (error + nat) \<times> nat set" where
  "spawnDaemon_port hashPath raPath bound projectPath =
     (case raPath of
        None \<Rightarrow> (Inl RustAnalyzerNotFound, bound)
      | Some path \<Rightarrow> findFreePort bound (BASE_PORT + parseInt16 (hashPath projectPath) mod 100))"

section \<open>daemon.ts: SimpleLspClient\<close>

text \<open>
  The promise that \<open>request\<close> returns for the request with a given id is referred to by
  that id: \<open>promises\<close> records whether it is still unsettled, resolved or rejected.
  \<open>Resolved v\<close> carries the value passed to \<open>resolve\<close> and \<open>Rejected v\<close> the message
  passed to \<open>new Error\<close>. Settling a promise that is already settled has no effect.
\<close>

datatype promise_state = Unsettled | Resolved "json option" | Rejected "json option"

text \<open>The socket, once connected: what has been written to it, and whether \<open>end()\<close> was
  called on it.\<close>

record socket_state =
  written :: "jsstring list"
  ended :: bool

text \<open>
  The fields of the class. \<open>pending\<close> holds the keys of the \<open>Map\<close>; the value stored under
  an id is the \<open>resolve\<close>/\<open>reject\<close> pair of that request's promise. \<open>diagnostics\<close> holds
  the entries of the \<open>Map\<close> under string keys, the only ones \<open>getDiagnostics\<close> and
  \<open>waitForDiagnostics\<close> look up; an entry may hold \<open>undefined\<close> (\<open>Some None\<close>).
  \<open>requestId\<close> is a JavaScript number that starts at 0 and that only \<open>++\<close> changes, so
  its values are integers from 0 to \<open>2^53\<close>. The promises are told apart by the ids of
  their requests, which is exact as long as no id is issued twice. \<open>timers\<close> lists the \<open>setTimeout\<close> calls made: the
  time each is due and the request id its callback closes over.
\<close>

record client =
  socket :: "socket_state option"
  buffer :: jsstring
  requestId :: int
  pending :: "int set"
  diagnostics :: "jsstring \<rightharpoonup> json option"
  promises :: "int \<rightharpoonup> promise_state"
  timers :: "(int \<times> int) list"

definition new_client :: client where
  "new_client = \<lparr>socket = None, buffer = [], requestId = 0, pending = {},
     diagnostics = Map.empty, promises = Map.empty, timers = []\<rparr>"

definition settle :: "int \<Rightarrow> promise_state \<Rightarrow> client \<Rightarrow> client" where
  "settle p outcome c =
     (if promises c p = Some Unsettled then c\<lparr>promises := (promises c)(p \<mapsto> outcome)\<rparr> else c)"

text \<open>\<open>"id" in msg\<close> throws a \<open>TypeError\<close> unless \<open>msg\<close> is an object or an array.\<close>

definition has_id :: "json \<Rightarrow> error + bool" where
  "has_id msg =
     (case msg of
        JObj props \<Rightarrow> Inr (js ''id'' \<in> fst ` set props)
      | JArr vs \<Rightarrow> Inr False
      | _ \<Rightarrow> Inl TypeError)"

text \<open>\<open>this.pending.has(v)\<close>: the keys are numbers, so only a number can be among them.\<close>

definition pending_has :: "client \<Rightarrow> json option \<Rightarrow> bool" where
  "pending_has c v = (case v of Some (JNum n) \<Rightarrow> n \<in> pending c | _ \<Rightarrow> False)"

definition the_num :: "json option \<Rightarrow> int" where
  "the_num v = (case v of Some (JNum n) \<Rightarrow> n | _ \<Rightarrow> 0)"

definition truthy :: "json option \<Rightarrow> bool" where
  "truthy v =
     (case v of
        None \<Rightarrow> False
      | Some JNull \<Rightarrow> False
      | Some (JBool b) \<Rightarrow> b
      | Some (JNum n) \<Rightarrow> n \<noteq> 0
      | Some (JStr s) \<Rightarrow> s \<noteq> []
      | Some w \<Rightarrow> True)"

text \<open>\<open>this.diagnostics.set(uri, diags)\<close>, as far as string keys see it.\<close>

definition diagnostics_set ::
  "(jsstring \<rightharpoonup> json option) \<Rightarrow> json option \<Rightarrow> json option \<Rightarrow> (jsstring \<rightharpoonup> json option)" where
  "diagnostics_set m uri diags = (case uri of Some (JStr u) \<Rightarrow> m(u \<mapsto> diags) | _ \<Rightarrow> m)"

text \<open>The body of the \<open>for\<close> loop of \<open>processBuffer\<close> for one message; \<open>Inl\<close> is a thrown
  error.\<close>

definition dispatch :: "client \<Rightarrow> json \<Rightarrow> error + client" where
  "dispatch c msg =
     (case has_id msg of
        Inl e \<Rightarrow> Inl e
      | Inr idIn \<Rightarrow>
          if idIn \<and> pending_has c (get_prop msg (js ''id'')) then
            (let p = the_num (get_prop msg (js ''id''));
                 c' = c\<lparr>pending := pending c - {p}\<rparr>
             in if truthy (get_prop msg (js ''error''))
                then (case member (get_prop msg (js ''error'')) (js ''message'') of
                        Inl e \<Rightarrow> Inl e
                      | Inr message \<Rightarrow> Inr (settle p (Rejected message) c'))
                else Inr (settle p (Resolved (get_prop msg (js ''result''))) c'))
          else if get_prop msg (js ''method'') = Some (JStr (js ''textDocument/publishDiagnostics'')) then
            (case member (get_prop msg (js ''params'')) (js ''uri'') of
               Inl e \<Rightarrow> Inl e
             | Inr uri \<Rightarrow>
                 (case member (get_prop msg (js ''params'')) (js ''diagnostics'') of
                    Inl e \<Rightarrow> Inl e
                  | Inr diags \<Rightarrow>
                      Inr (c\<lparr>diagnostics := diagnostics_set (diagnostics c) uri diags\<rparr>)))
          else Inr c)"

text \<open>The \<open>for\<close> loop: a thrown error leaves the loop with the changes made so far.\<close>

fun dispatch_all :: "client \<Rightarrow> json list \<Rightarrow> client \<times> error option" where
  "dispatch_all c [] = (c, None)"
| "dispatch_all c (msg # msgs) =
     (case dispatch c msg of
        Inl e \<Rightarrow> (c, Some e)
      | Inr c' \<Rightarrow> dispatch_all c' msgs)"

definition processBuffer :: "(jsstring \<Rightarrow> json option) \<Rightarrow> client \<Rightarrow> (client \<times> error option) option" where
  "processBuffer parse c =
     (case parseMessages parse (buffer c) of
        None \<Rightarrow> None
      | Some (messages, remaining) \<Rightarrow> Some (dispatch_all (c\<lparr>buffer := remaining\<rparr>) messages))"

text \<open>The \<open>data\<close> callback of \<open>connect\<close>, on the text decoded from one chunk.\<close>

definition on_data :: "(jsstring \<Rightarrow> json option) \<Rightarrow> jsstring \<Rightarrow> client \<Rightarrow> (client \<times> error option) option" where
  "on_data parse chunk c = processBuffer parse (c\<lparr>buffer := buffer c @ chunk\<rparr>)"

definition send :: "(json \<Rightarrow> jsstring) \<Rightarrow> json \<Rightarrow> client \<Rightarrow> client" where
  "send stringify msg c =
     (case socket c of
        None \<Rightarrow> c
      | Some s \<Rightarrow> c\<lparr>socket := Some (s\<lparr>written := written s @ [encodeMessage stringify msg]\<rparr>)\<rparr>)"

definition REQUEST_TIMEOUT_MS :: int where
  "REQUEST_TIMEOUT_MS = 30000"

text \<open>
  \<open>++this.requestId\<close> on a double: adding 1 is exact below \<open>2^53\<close>, and \<open>2^53 + 1\<close> is not
  a double and rounds back to \<open>2^53\<close>, where the counter stays.
\<close>

definition increment :: "int \<Rightarrow> int" where
  "increment n = (if n < 2 ^ 53 then n + 1 else n)"

text \<open>The objects \<open>request\<close> and \<open>notify\<close> pass to \<open>send\<close>. A \<open>params\<close> that is
  \<open>undefined\<close> is a property \<open>JSON.stringify\<close> leaves out.\<close>

definition request_message :: "int \<Rightarrow> jsstring \<Rightarrow> json option \<Rightarrow> json" where
  "request_message reqId method params =
     JObj ([(js ''jsonrpc'', JStr (js ''2.0'')), (js ''id'', JNum reqId), (js ''method'', JStr method)] @
           (case params of None \<Rightarrow> [] | Some v \<Rightarrow> [(js ''params'', v)]))"

definition notification_message :: "jsstring \<Rightarrow> json option \<Rightarrow> json" where
  "notification_message method params =
     JObj ([(js ''jsonrpc'', JStr (js ''2.0'')), (js ''method'', JStr method)] @
           (case params of None \<Rightarrow> [] | Some v \<Rightarrow> [(js ''params'', v)]))"

text \<open>
  \<open>request\<close>, called at time \<open>now\<close>: the executor of the promise runs at once, so the entry
  in \<open>pending\<close>, the write and the timer are all made before \<open>request\<close> returns. The result
  is the id, which names the promise returned.
\<close>

definition request ::
  "(json \<Rightarrow> jsstring) \<Rightarrow> int \<Rightarrow> jsstring \<Rightarrow> json option \<Rightarrow> client \<Rightarrow> int \<times> client" where
  "request stringify now method params c =
     (let id = increment (requestId c);
          c1 = c\<lparr>requestId := id\<rparr>;
          c2 = c1\<lparr>promises := (promises c1)(id \<mapsto> Unsettled)\<rparr>;
          c3 = c2\<lparr>pending := insert id (pending c2)\<rparr>;
          c4 = send stringify (request_message id method params) c3;
          c5 = c4\<lparr>timers := timers c4 @ [(now + REQUEST_TIMEOUT_MS, id)]\<rparr>
      in (id, c5))"

text \<open>The callback passed to \<open>setTimeout\<close> by the request whose id is \<open>reqId\<close>.\<close>

definition request_timeout :: "int \<Rightarrow> client \<Rightarrow> client" where
  "request_timeout reqId c =
     (if reqId \<in> pending c
      then settle reqId (Rejected (Some (JStr (js ''Request timeout''))))
             (c\<lparr>pending := pending c - {reqId}\<rparr>)
      else c)"

definition notify :: "(json \<Rightarrow> jsstring) \<Rightarrow> jsstring \<Rightarrow> json option \<Rightarrow> client \<Rightarrow> client" where
  "notify stringify method params c =
     send stringify (notification_message method params) c"

text \<open>\<open>getDiagnostics\<close>: \<open>??\<close> replaces \<open>undefined\<close> and \<open>null\<close> by the empty array.\<close>

definition getDiagnostics :: "client \<Rightarrow> jsstring \<Rightarrow> json" where
  "getDiagnostics c uri =
     (case diagnostics c uri of
        Some (Some diags) \<Rightarrow> if diags = JNull then JArr [] else diags
      | _ \<Rightarrow> JArr [])"

text \<open>
  \<open>waitForDiagnostics\<close>. Time is the clock \<open>Date.now()\<close> reads, in milliseconds;
  \<open>diagnostics_at t\<close> is the content of \<open>this.diagnostics\<close> at time \<open>t\<close>, which the \<open>data\<close>
  callback changes while the loop is suspended in \<open>Bun.sleep(100)\<close>; the sleep resumes
  100 ms later and the rest of the loop takes no time. The result is the value returned
  and the time of the return.
\<close>

function waitForDiagnostics_loop ::
  "(int \<Rightarrow> jsstring \<rightharpoonup> json option) \<Rightarrow> jsstring \<Rightarrow> int \<Rightarrow> int \<Rightarrow> int \<Rightarrow> json \<times> int" where
  "waitForDiagnostics_loop diagnostics_at uri timeoutMs start now =
     (if now - start < timeoutMs then
        (case diagnostics_at now uri of
           Some (Some diags) \<Rightarrow> (diags, now)
         | _ \<Rightarrow> waitForDiagnostics_loop diagnostics_at uri timeoutMs start (now + 100))
      else (JArr [], now))"
  by pat_completeness auto
termination
  by (relation "measure (\<lambda>(d, uri, timeoutMs, start, now). nat (start + timeoutMs - now))") auto

declare waitForDiagnostics_loop.simps [simp del]

definition waitForDiagnostics ::
  "(int \<Rightarrow> jsstring \<rightharpoonup> json option) \<Rightarrow> jsstring \<Rightarrow> int \<Rightarrow> int \<Rightarrow> json \<times> int" where
  "waitForDiagnostics diagnostics_at uri timeoutMs start =
     waitForDiagnostics_loop diagnostics_at uri timeoutMs start start"

text \<open>\<open>connect\<close>, when \<open>Bun.connect\<close> succeeds, and \<open>close\<close>.\<close>

definition connect :: "client \<Rightarrow> client" where
  "connect c = c\<lparr>socket := Some \<lparr>written = [], ended = False\<rparr>\<rparr>"

definition close :: "client \<Rightarrow> client" where
  "close c = (case socket c of None \<Rightarrow> c | Some s \<Rightarrow> c\<lparr>socket := Some (s\<lparr>ended := True\<rparr>)\<rparr>)"

subsection \<open>The event loop\<close>

text \<open>
  Execution is single-threaded: the methods and callbacks of one client run one at a time,
  each to completion. An event is one such run: a call of \<open>connect\<close>, \<open>request\<close> (at a
  time, with a method and parameters), \<open>notify\<close> or \<open>close\<close>, the \<open>data\<close> callback on the
  text of a chunk, or the timer callback of the request with an id. \<open>client_step\<close> gives
  the client after the event, the id issued if the event is a request, and the messages
  the event decoded from the stream.
\<close>

datatype event =
    Connect
  | Request int jsstring "json option"
  | Notify jsstring "json option"
  | Data jsstring
  | TimerFired int
  | Close

fun client_step ::
  "(json \<Rightarrow> jsstring) \<Rightarrow> (jsstring \<Rightarrow> json option) \<Rightarrow> client \<Rightarrow> event \<Rightarrow>
   client \<times> int list \<times> json list" where
  "client_step stringify parse c Connect = (connect c, [], [])"
| "client_step stringify parse c (Request now method params) =
     (case request stringify now method params c of (i, c') \<Rightarrow> (c', [i], []))"
| "client_step stringify parse c (Notify method params) = (notify stringify method params c, [], [])"
| "client_step stringify parse c (Data chunk) =
     (case parseMessages parse (buffer c @ chunk) of
        None \<Rightarrow> (c, [], [])
      | Some (messages, remaining) \<Rightarrow>
          (case on_data parse chunk c of
             None \<Rightarrow> (c, [], [])
           | Some (c', e) \<Rightarrow> (c', [], messages)))"
| "client_step stringify parse c (TimerFired reqId) = (request_timeout reqId c, [], [])"
| "client_step stringify parse c Close = (close c, [], [])"

fun client_run ::
  "(json \<Rightarrow> jsstring) \<Rightarrow> (jsstring \<Rightarrow> json option) \<Rightarrow> client \<Rightarrow> event list \<Rightarrow>
   client \<times> int list \<times> json list" where
  "client_run stringify parse c [] = (c, [], [])"
| "client_run stringify parse c (ev # evs) =
     (case client_step stringify parse c ev of
        (c', ids, msgs) \<Rightarrow>
          (case client_run stringify parse c' evs of
             (c'', ids', msgs') \<Rightarrow> (c'', ids @ ids', msgs @ msgs')))"

text \<open>
  The objects a sequence of events passes to \<open>send\<close>, in order, when \<open>ids\<close> are the ids
  issued to its requests, in order.
\<close>

fun outbound :: "event list \<Rightarrow> int list \<Rightarrow> json list" where
  "outbound [] ids = []"
| "outbound (Request now method params # evs) [] = []"
| "outbound (Request now method params # evs) (i # ids) =
     request_message i method params # outbound evs ids"
| "outbound (Notify method params # evs) ids =
     notification_message method params # outbound evs ids"
| "outbound (ev # evs) ids = outbound evs ids"

section \<open>Sample data\<close>

text \<open>
  The values and texts the examples below use: a request as \<open>request\<close> builds it for the
  method \<open>initialize\<close> without parameters, a diagnostics push for \<open>file:///a.rs\<close> that
  carries no diagnostics, a response to request 2, a record as \<open>spawnDaemon\<close> writes it,
  and a diagnostic.
\<close>

definition initialize_request :: "int \<Rightarrow> json" where
  "initialize_request k =
     JObj [(js ''jsonrpc'', JStr (js ''2.0'')), (js ''id'', JNum k), (js ''method'', JStr (js ''initialize''))]"

definition empty_push :: json where
  "empty_push =
     JObj [(js ''jsonrpc'', JStr (js ''2.0'')),
           (js ''method'', JStr (js ''textDocument/publishDiagnostics'')),
           (js ''params'', JObj [(js ''uri'', JStr (js ''file:///a.rs'')), (js ''diagnostics'', JArr [])])]"

definition null_response :: json where
  "null_response = JObj [(js ''jsonrpc'', JStr (js ''2.0'')), (js ''id'', JNum 2), (js ''result'', JNull)]"

definition sample_record :: json where
  "sample_record = JObj [(js ''pid'', JNum 4242), (js ''port'', JNum 19203),
     (js ''projectPath'', JStr (js ''/proj'')), (js ''startedAt'', JNum 1700000000000),
     (js ''initialized'', JBool False)]"

definition sample_diagnostic :: json where
  "sample_diagnostic = JObj [(js ''severity'', JNum 1), (js ''message'', JStr (js ''stub error''))]"

text \<open>Each value with the text \<open>JSON.stringify\<close> gives for it, which \<open>JSON.parse\<close> reads
  back as the value.\<close>

definition sample_texts :: "(json \<times> jsstring) list" where
  "sample_texts =
     [(JObj [], js ''{}''),
      (JArr [JNum 1], js ''[1]''),
      (JObj [(js ''a'', JStr [0xE9])], js ''{\"a\":\"'' @ [0xE9] @ js ''\"}''),
      (initialize_request 1, js ''{\"jsonrpc\":\"2.0\",\"id\":1,\"method\":\"initialize\"}''),
      (initialize_request 2, js ''{\"jsonrpc\":\"2.0\",\"id\":2,\"method\":\"initialize\"}''),
      (initialize_request 3, js ''{\"jsonrpc\":\"2.0\",\"id\":3,\"method\":\"initialize\"}''),
      (empty_push, js ''{\"jsonrpc\":\"2.0\",\"method\":\"textDocument/publishDiagnostics\",\"params\":{\"uri\":\"file:///a.rs\",\"diagnostics\":[]}}''),
      (null_response, js ''{\"jsonrpc\":\"2.0\",\"id\":2,\"result\":null}'')]"

text \<open>\<open>JSON.stringify\<close> and \<open>JSON.parse\<close> on the sample data; \<open>JSON.parse\<close> throws on every
  other text, and no other value is serialised in the examples.\<close>

definition sample_stringify :: "json \<Rightarrow> jsstring" where
  "sample_stringify v = (case map_of sample_texts v of Some t \<Rightarrow> t | None \<Rightarrow> [])"

definition sample_parse :: "jsstring \<Rightarrow> json option" where
  "sample_parse s = map_of (map (\<lambda>(v, t). (t, v)) sample_texts) s"

text \<open>The content of \<open>this.diagnostics\<close> over time when it is empty until one push for
  \<open>uri\<close> is dispatched at time \<open>t0\<close>.\<close>

definition pushed_at :: "int \<Rightarrow> jsstring \<Rightarrow> json option \<Rightarrow> int \<Rightarrow> jsstring \<rightharpoonup> json option" where
  "pushed_at t0 uri diags t = (if t0 \<le> t then [uri \<mapsto> diags] else Map.empty)"




section \<open>Properties of the framer\<close>

subsection \<open>Searching for the header delimiter\<close>

lemma indexOf_bound: "indexOf pat s = Some i \<Longrightarrow> i + length pat \<le> length s"
proof (induction s arbitrary: i)
  case Nil
  then show ?case by (simp split: if_splits)
next
  case (Cons c cs)
  show ?case
  proof (cases "prefix pat (c # cs)")
    case True
    with Cons.prems have "i = 0" by simp
    with True show ?thesis using prefix_length_le [of pat "c # cs"] by simp
  next
    case False
    with Cons.prems obtain j where "indexOf pat cs = Some j" "i = Suc j" by auto
    with Cons.IH show ?thesis by fastforce
  qed
qed

lemma prefix_append_short:
  "prefix pat (xs @ rest) \<Longrightarrow> length pat \<le> length xs \<Longrightarrow> prefix pat xs"
proof -
  assume p: "prefix pat (xs @ rest)" and l: "length pat \<le> length xs"
  from p obtain zs where "xs @ rest = pat @ zs" by (auto simp: prefix_def)
  with l have "pat = take (length pat) xs"
    by (metis append_eq_conv_conj take_append diff_is_0_eq' take_0 append_Nil2)
  then show ?thesis by (metis take_is_prefix)
qed

lemma indexOf_append_rest:
  "indexOf pat (h @ pat) = Some (length h) \<Longrightarrow> indexOf pat (h @ pat @ rest) = Some (length h)"
proof (induction h)
  case Nil
  show ?case
  proof (cases "pat @ rest")
    case Nil
    then show ?thesis by simp
  next
    case (Cons a list)
    then have "prefix pat (a # list)" by (metis prefixI)
    then show ?thesis using Cons by simp
  qed
next
  case (Cons x h)
  have np: "\<not> prefix pat (x # h @ pat)"
    using Cons.prems by (auto split: if_splits)
  then have "\<not> prefix pat ((x # h @ pat) @ rest)"
    using prefix_append_short [of pat "x # h @ pat" rest] by auto
  moreover have "indexOf pat (h @ pat) = Some (length h)"
    using Cons.prems np by auto
  ultimately show ?case using Cons.IH by simp
qed

lemma parseMessages_loop_frame:
  assumes "indexOf CRLFCRLF (h @ CRLFCRLF) = Some (length h)"
    and "matchContentLength h = Some d"
    and "parseInt10 d = length p"
  shows "parseMessages_loop parse acc (h @ CRLFCRLF @ p @ rest) =
         parseMessages_loop parse (case parse p of Some m \<Rightarrow> acc @ [m] | None \<Rightarrow> acc) rest"
proof -
  have i: "indexOf CRLFCRLF (h @ CRLFCRLF @ p @ rest) = Some (length h)"
    using assms(1) by (rule indexOf_append_rest)
  have l: "length CRLFCRLF = 4" by (simp add: CRLFCRLF_def)
  show ?thesis
    by (subst parseMessages_loop.simps) (simp add: i assms(2,3) l)
qed

lemma parseMessages_loop_total: "\<exists>r. parseMessages_loop parse acc s = Some r"
proof (induction s arbitrary: acc rule: length_induct)
  case (1 s)
  have l: "length CRLFCRLF = 4" by (simp add: CRLFCRLF_def)
  show ?case
  proof (cases "indexOf CRLFCRLF s")
    case None
    then show ?thesis by (subst parseMessages_loop.simps) simp
  next
    case (Some he)
    then have b: "he + 4 \<le> length s" using indexOf_bound [of CRLFCRLF s he] l by simp
    then have sh: "length (drop (he + 4 + k) s) < length s" for k by simp
    show ?thesis
    proof (cases "matchContentLength (take he s)")
      case None
      with Some 1 sh [of 0] show ?thesis
        by (subst parseMessages_loop.simps) simp
    next
      case (Some d)
      with \<open>indexOf CRLFCRLF s = Some he\<close> 1 sh [of "parseInt10 d"] show ?thesis
        by (subst parseMessages_loop.simps) simp
    qed
  qed
qed


lemma parseMessages_loop_frames:
  assumes "\<forall>(h, p) \<in> set frames.
             indexOf CRLFCRLF (h @ CRLFCRLF) = Some (length h) \<and>
             (\<exists>d. matchContentLength h = Some d \<and> parseInt10 d = length p)"
  shows "parseMessages_loop parse acc (concat (map (\<lambda>(h, p). h @ CRLFCRLF @ p) frames) @ tail) =
         parseMessages_loop parse (acc @ List.map_filter parse (map snd frames)) tail"
  using assms
proof (induction frames arbitrary: acc)
  case Nil
  then show ?case by (simp add: List.map_filter_simps)
next
  case (Cons f frames)
  obtain h p where f: "f = (h, p)" by (cases f)
  from Cons.prems f obtain d where
    h: "indexOf CRLFCRLF (h @ CRLFCRLF) = Some (length h)"
    and d: "matchContentLength h = Some d" "parseInt10 d = length p"
    by auto
  have rest: "\<forall>(h, p) \<in> set frames.
             indexOf CRLFCRLF (h @ CRLFCRLF) = Some (length h) \<and>
             (\<exists>d. matchContentLength h = Some d \<and> parseInt10 d = length p)"
    using Cons.prems by simp
  have "parseMessages_loop parse acc (concat (map (\<lambda>(h, p). h @ CRLFCRLF @ p) (f # frames)) @ tail) =
        parseMessages_loop parse acc
          (h @ CRLFCRLF @ p @ (concat (map (\<lambda>(h, p). h @ CRLFCRLF @ p) frames) @ tail))"
    by (simp add: f)
  also have "\<dots> = parseMessages_loop parse (case parse p of Some m \<Rightarrow> acc @ [m] | None \<Rightarrow> acc)
          (concat (map (\<lambda>(h, p). h @ CRLFCRLF @ p) frames) @ tail)"
    using h d by (rule parseMessages_loop_frame)
  also have "\<dots> = parseMessages_loop parse
          ((case parse p of Some m \<Rightarrow> acc @ [m] | None \<Rightarrow> acc) @ List.map_filter parse (map snd frames)) tail"
    using rest by (rule Cons.IH)
  also have "(case parse p of Some m \<Rightarrow> acc @ [m] | None \<Rightarrow> acc) @ List.map_filter parse (map snd frames) =
         acc @ List.map_filter parse (map snd (f # frames))"
    by (simp add: f List.map_filter_simps split: option.splits)
  finally show ?case .
qed

lemma parseMessages_loop_partial:
  assumes "indexOf CRLFCRLF tail = None \<or>
           (\<exists>headerEnd d. indexOf CRLFCRLF tail = Some headerEnd \<and>
              matchContentLength (take headerEnd tail) = Some d \<and>
              length tail < headerEnd + 4 + parseInt10 d)"
  shows "parseMessages_loop parse acc tail = Some (acc, tail)"
  using assms by (subst parseMessages_loop.simps) auto

subsection \<open>Complete frames and a partial tail\<close>

text \<open>
  A buffer made of frames followed by partial data decodes to the messages of the frames,
  in order, and the partial data is what remains, when each frame is a header \<open>h\<close>
  ended by the first blank line after its start, in which the pattern finds a length, and
  a payload \<open>p\<close> of exactly that many code units. Partial data is a tail with no blank
  line, or a header whose payload has not fully arrived. The messages are the payloads
  that \<open>JSON.parse\<close> accepts.
\<close>

lemma parseMessages_frames:
  assumes "\<forall>(h, p) \<in> set frames.
             indexOf CRLFCRLF (h @ CRLFCRLF) = Some (length h) \<and>
             (\<exists>d. matchContentLength h = Some d \<and> parseInt10 d = length p)"
    and "indexOf CRLFCRLF tail = None \<or>
           (\<exists>headerEnd d. indexOf CRLFCRLF tail = Some headerEnd \<and>
              matchContentLength (take headerEnd tail) = Some d \<and>
              length tail < headerEnd + 4 + parseInt10 d)"
  shows "parseMessages parse (concat (map (\<lambda>(h, p). h @ CRLFCRLF @ p) frames) @ tail) =
         Some (List.map_filter parse (map snd frames), tail)"
  unfolding parseMessages_def
  using parseMessages_loop_frames [OF assms(1), of parse "[]" tail]
    parseMessages_loop_partial [OF assms(2), of parse]
  by simp

lemma parseMessages_frames_example:
  "parseMessages sample_parse
     (js ''Content-Length: 2'' @ CRLFCRLF @ js ''{}'' @
      js ''content-length: 3'' @ CRLFCRLF @ js ''[1]'' @ js ''Content-Le'') =
   Some ([JObj [], JArr [JNum 1]], js ''Content-Le'')"
proof -
  have f: "\<forall>(h, p) \<in> set [(js ''Content-Length: 2'', js ''{}''), (js ''content-length: 3'', js ''[1]'')].
             indexOf CRLFCRLF (h @ CRLFCRLF) = Some (length h) \<and>
             (\<exists>d. matchContentLength h = Some d \<and> parseInt10 d = length p)"
    by (simp add: js_def CRLFCRLF_def matchHere_def isDigit_def canonicalize_def
        parseInt10_def digit_val_def)
  have t: "indexOf CRLFCRLF (js ''Content-Le'') = None"
    by (simp add: js_def CRLFCRLF_def)
  have p: "sample_parse (js ''{}'') = Some (JObj [])" "sample_parse (js ''[1]'') = Some (JArr [JNum 1])"
    by code_simp+
  show ?thesis
    using parseMessages_frames [OF f, of "js ''Content-Le''" sample_parse] t
    by (simp add: List.map_filter_simps p)
qed

subsection \<open>Malformed headers\<close>

text \<open>The messages decoded so far are kept in front of those decoded from what remains.\<close>

lemma parseMessages_loop_accumulates:
  "parseMessages_loop parse acc s =
   map_option (\<lambda>(ms, r). (acc @ ms, r)) (parseMessages_loop parse [] s)"
proof (induction s arbitrary: acc rule: length_induct)
  case (1 s)
  have l: "length CRLFCRLF = 4" by (simp add: CRLFCRLF_def)
  show ?case
  proof (cases "indexOf CRLFCRLF s")
    case None
    then show ?thesis by (subst (1 2) parseMessages_loop.simps) simp
  next
    case (Some he)
    then have "he + 4 \<le> length s" using indexOf_bound [of CRLFCRLF s he] l by simp
    then have sh: "length (drop (he + 4 + k) s) < length s"
      and sh0: "length (drop (he + 4) s) < length s" for k by simp_all
    show ?thesis
    proof (cases "matchContentLength (take he s)")
      case None
      have step: "parseMessages_loop parse acc s = parseMessages_loop parse acc (drop (he + 4) s)" for acc
        using Some None by (subst parseMessages_loop.simps) simp
      have "parseMessages_loop parse acc (drop (he + 4) s) =
          map_option (\<lambda>(ms, r). (acc @ ms, r)) (parseMessages_loop parse [] (drop (he + 4) s))"
        by (rule 1 [rule_format, OF sh0])
      then show ?thesis by (simp only: step [of acc] step [of "[]"])
    next
      case d: (Some d)
      show ?thesis
      proof (cases "length s < he + 4 + parseInt10 d")
        case True
        then show ?thesis using Some d by (subst (1 2) parseMessages_loop.simps) simp
      next
        case False
        let ?rest = "drop (he + 4 + parseInt10 d) s"
        let ?p = "parse (take (parseInt10 d) (drop (he + 4) s))"
        have step: "parseMessages_loop parse acc s =
            parseMessages_loop parse (case ?p of Some m \<Rightarrow> acc @ [m] | None \<Rightarrow> acc) ?rest" for acc
          using Some d False by (subst parseMessages_loop.simps) simp
        have ih: "parseMessages_loop parse acc ?rest =
            map_option (\<lambda>(ms, r). (acc @ ms, r)) (parseMessages_loop parse [] ?rest)" for acc
          by (rule 1 [rule_format, OF sh])
        show ?thesis
        proof (cases ?p)
          case None
          then show ?thesis using ih [of acc] by (simp add: step [of acc] step [of "[]"])
        next
          case (Some m)
          have "parseMessages_loop parse acc s =
              map_option (\<lambda>(ms, r). ((acc @ [m]) @ ms, r)) (parseMessages_loop parse [] ?rest)"
            using step [of acc] ih [of "acc @ [m]"] Some by simp
          moreover have "parseMessages_loop parse [] s =
              map_option (\<lambda>(ms, r). ([m] @ ms, r)) (parseMessages_loop parse [] ?rest)"
            using step [of "[]"] ih [of "[m]"] Some by simp
          ultimately show ?thesis
            by (cases "parseMessages_loop parse [] ?rest") auto
        qed
      qed
    qed
  qed
qed

text \<open>
  C8: from every state of the loop of \<open>parseMessages\<close>, whatever the messages decoded so
  far and whatever remains of the buffer, the loop exits with a result (the model has no
  error value to return, and \<open>None\<close>, the loop running forever, does not occur), and so
  does \<open>parseMessages\<close> on every buffer. A header in which the pattern finds no length is
  skipped in every state: the loop goes on with the same messages and with what follows
  the header's delimiter, so that its result is the messages decoded so far followed by
  the messages decoded from the rest, and the remainder of the rest.
\<close>

theorem parseMessages_never_stalls:
  "(\<exists>result. parseMessages_loop parse messages remaining = Some result) \<and>
   (\<exists>result. parseMessages parse buf = Some result) \<and>
   (\<forall>headerEnd. indexOf CRLFCRLF remaining = Some headerEnd \<and>
        matchContentLength (take headerEnd remaining) = None \<longrightarrow>
      parseMessages_loop parse messages remaining =
        parseMessages_loop parse messages (drop (headerEnd + 4) remaining) \<and>
      parseMessages_loop parse messages remaining =
        map_option (\<lambda>(ms, r). (messages @ ms, r))
          (parseMessages parse (drop (headerEnd + 4) remaining))) \<and>
   (\<forall>headerEnd. indexOf CRLFCRLF buf = Some headerEnd \<and>
        matchContentLength (take headerEnd buf) = None \<longrightarrow>
      parseMessages parse buf = parseMessages parse (drop (headerEnd + 4) buf))"
proof (intro conjI allI impI)
  show "\<exists>result. parseMessages_loop parse messages remaining = Some result"
    by (rule parseMessages_loop_total)
  show "\<exists>result. parseMessages parse buf = Some result"
    unfolding parseMessages_def by (rule parseMessages_loop_total)
next
  fix headerEnd
  assume a: "indexOf CRLFCRLF remaining = Some headerEnd \<and>
        matchContentLength (take headerEnd remaining) = None"
  then show s: "parseMessages_loop parse messages remaining =
        parseMessages_loop parse messages (drop (headerEnd + 4) remaining)"
    by (subst parseMessages_loop.simps) simp
  show "parseMessages_loop parse messages remaining =
        map_option (\<lambda>(ms, r). (messages @ ms, r))
          (parseMessages parse (drop (headerEnd + 4) remaining))"
    unfolding s parseMessages_def by (rule parseMessages_loop_accumulates)
next
  fix headerEnd
  assume "indexOf CRLFCRLF buf = Some headerEnd \<and>
        matchContentLength (take headerEnd buf) = None"
  then show "parseMessages parse buf = parseMessages parse (drop (headerEnd + 4) buf)"
    unfolding parseMessages_def by (subst parseMessages_loop.simps) simp
qed

theorem parseMessages_never_stalls_witness:
  "indexOf CRLFCRLF (js ''junk'' @ CRLFCRLF @ js ''Content-Length: 3'' @ CRLFCRLF @ js ''[1]'') = Some 4 \<and>
   matchContentLength (take 4 (js ''junk'' @ CRLFCRLF @ js ''Content-Length: 3'' @ CRLFCRLF @ js ''[1]'')) = None \<and>
   parseMessages_loop sample_parse [JObj []]
     (js ''junk'' @ CRLFCRLF @ js ''Content-Length: 3'' @ CRLFCRLF @ js ''[1]'') =
     Some ([JObj [], JArr [JNum 1]], []) \<and>
   parseMessages sample_parse
     (js ''Content-Length: 2'' @ CRLFCRLF @ js ''{}'' @
      js ''junk'' @ CRLFCRLF @ js ''Content-Length: 3'' @ CRLFCRLF @ js ''[1]'') =
     Some ([JObj [], JArr [JNum 1]], [])"
proof -
  let ?b = "js ''junk'' @ CRLFCRLF @ js ''Content-Length: 3'' @ CRLFCRLF @ js ''[1]''"
  have i: "indexOf CRLFCRLF ?b = Some 4" by code_simp
  have m: "matchContentLength (take 4 ?b) = None" by code_simp
  have r: "parseMessages sample_parse (drop (4 + 4) ?b) = Some ([JArr [JNum 1]], [])" by code_simp
  from parseMessages_never_stalls [of sample_parse "[JObj []]" ?b] i m
  have "parseMessages_loop sample_parse [JObj []] ?b =
      map_option (\<lambda>(ms, r). ([JObj []] @ ms, r)) (parseMessages sample_parse (drop (4 + 4) ?b))"
    by blast
  with r have l: "parseMessages_loop sample_parse [JObj []] ?b = Some ([JObj [], JArr [JNum 1]], [])"
    by simp
  have f: "indexOf CRLFCRLF (js ''Content-Length: 2'' @ CRLFCRLF) = Some (length (js ''Content-Length: 2''))"
    "matchContentLength (js ''Content-Length: 2'') = Some (js ''2'')" "parseInt10 (js ''2'') = length (js ''{}'')"
    by code_simp+
  have p: "sample_parse (js ''{}'') = Some (JObj [])" by code_simp
  have "parseMessages sample_parse (js ''Content-Length: 2'' @ CRLFCRLF @ js ''{}'' @ ?b) =
      parseMessages_loop sample_parse [JObj []] ?b"
    unfolding parseMessages_def
    using parseMessages_loop_frame [OF f, of sample_parse "[]" ?b] p by simp
  with i m l show ?thesis by simp
qed

subsection \<open>Encoding and decoding a message\<close>

lemma byteLength_ascii: "\<forall>c \<in> set s. c < 0x80 \<Longrightarrow> byteLength s = length s"
  by (induction s rule: byteLength.induct) auto

lemma digit_char_props:
  assumes "d < 10"
  shows "isDigit (digit_char d)" and "digit_val (digit_char d) = d" and "digit_char d \<noteq> 0x0D"
proof -
  from assms have "d \<in> {0, 1, 2, 3, 4, 5, 6, 7, 8, 9}" by auto
  then show "isDigit (digit_char d)" and "digit_val (digit_char d) = d" and "digit_char d \<noteq> 0x0D"
    by (auto simp: digit_char_def isDigit_def digit_val_def)
qed

lemma decimal_digits: "\<forall>c \<in> set (decimal n). isDigit c \<and> c \<noteq> 0x0D"
proof (induction n rule: decimal.induct)
  case (1 n)
  show ?case
  proof (cases "n < 10")
    case True
    then show ?thesis by (subst decimal.simps) (simp add: digit_char_props)
  next
    case False
    moreover have "n mod 10 < 10" by simp
    ultimately show ?thesis
      using "1.IH" by (subst decimal.simps) (simp add: digit_char_props)
  qed
qed

lemma decimal_not_Nil: "decimal n \<noteq> []"
  by (subst decimal.simps) simp

lemma parseInt10_snoc: "parseInt10 (ds @ [c]) = 10 * parseInt10 ds + digit_val c"
  by (simp add: parseInt10_def)

lemma parseInt10_decimal: "parseInt10 (decimal n) = n"
proof (induction n rule: decimal.induct)
  case (1 n)
  show ?case
  proof (cases "n < 10")
    case True
    then show ?thesis
      by (subst decimal.simps) (simp add: parseInt10_def digit_char_props)
  next
    case False
    have "n mod 10 < 10" by simp
    then have "digit_val (digit_char (n mod 10)) = n mod 10" by (rule digit_char_props)
    with False "1.IH" show ?thesis
      by (subst decimal.simps) (simp add: parseInt10_snoc)
  qed
qed

lemma indexOf_no_CR:
  "0x0D \<notin> set h \<Longrightarrow> indexOf CRLFCRLF (h @ CRLFCRLF) = Some (length h)"
proof (induction h)
  case Nil
  then show ?case by (simp add: CRLFCRLF_def)
next
  case (Cons x h)
  then have "\<not> prefix CRLFCRLF (x # h @ CRLFCRLF)"
    by (auto simp: CRLFCRLF_def)
  with Cons show ?case by simp
qed

lemma indexOf_prefix_None:
  "indexOf pat xs = Some i \<Longrightarrow> prefix p xs \<Longrightarrow> length p < i + length pat \<Longrightarrow> pat \<noteq> [] \<Longrightarrow>
   indexOf pat p = None"
proof (induction xs arbitrary: i p)
  case Nil
  then show ?case by simp
next
  case (Cons x xs)
  show ?case
  proof (cases p)
    case Nil
    with Cons.prems show ?thesis by simp
  next
    case (Cons y q)
    with Cons.prems(2) have y: "y = x" and q: "prefix q xs" by simp_all
    show ?thesis
    proof (cases "prefix pat (x # xs)")
      case True
      with Cons.prems(1) have "i = 0" by simp
      with Cons.prems(3) have "length p < length pat" by simp
      then have "\<not> prefix pat p" using prefix_length_le [of pat p] by auto
      moreover have "indexOf pat q = None"
      proof (cases "indexOf pat q")
        case (Some k)
        then have "k + length pat \<le> length q" by (rule indexOf_bound)
        with \<open>length p < length pat\<close> \<open>p = y # q\<close> show ?thesis by simp
      qed simp
      ultimately show ?thesis using \<open>p = y # q\<close> by simp
    next
      case False
      with Cons.prems(1) obtain j where j: "indexOf pat xs = Some j" "i = Suc j" by auto
      have "length q < j + length pat" using Cons.prems(3) j \<open>p = y # q\<close> by simp
      with Cons.IH [OF j(1) q] Cons.prems(4) have "indexOf pat q = None" by simp
      moreover have "\<not> prefix pat p"
      proof
        assume "prefix pat p"
        with Cons.prems(2) have "prefix pat (x # xs)" by (metis prefix_order.trans)
        with False show False by simp
      qed
      ultimately show ?thesis using \<open>p = y # q\<close> by simp
    qed
  qed
qed

text \<open>The header \<open>encodeMessage\<close> writes.\<close>

lemma header_props:
  fixes n :: nat
  defines "h \<equiv> js ''Content-Length: '' @ decimal n"
  shows "indexOf CRLFCRLF (h @ CRLFCRLF) = Some (length h)"
    and "matchContentLength h = Some (decimal n)"
proof -
  have "0x0D \<notin> set (js ''Content-Length: '')" by (simp add: js_def)
  moreover have "0x0D \<notin> set (decimal n)" using decimal_digits [of n] by auto
  ultimately have "0x0D \<notin> set h" by (simp add: h_def)
  then show "indexOf CRLFCRLF (h @ CRLFCRLF) = Some (length h)" by (rule indexOf_no_CR)
  have l: "length (js ''Content-Length: '') = 16" by (simp add: js_def)
  have t: "takeWhile isDigit (decimal n) = decimal n"
    using decimal_digits [of n] by (simp add: takeWhile_eq_all_conv)
  have "matchHere h = Some (decimal n)"
    by (simp add: matchHere_def Let_def h_def l t decimal_not_Nil)
  moreover obtain c cs where "h = c # cs" by (cases h) (simp_all add: h_def js_def)
  ultimately show "matchContentLength h = Some (decimal n)" by simp
qed

lemma parseMessages_loop_encoded:
  assumes "\<forall>c \<in> set (stringify m). c < 0x80"
  shows "parseMessages_loop parse acc (encodeMessage stringify m @ rest) =
         parseMessages_loop parse
           (case parse (stringify m) of Some v \<Rightarrow> acc @ [v] | None \<Rightarrow> acc) rest"
proof -
  let ?n = "byteLength (stringify m)"
  have n: "?n = length (stringify m)" using assms by (rule byteLength_ascii)
  have "parseMessages_loop parse acc
          ((js ''Content-Length: '' @ decimal ?n) @ CRLFCRLF @ stringify m @ rest) =
        parseMessages_loop parse
           (case parse (stringify m) of Some v \<Rightarrow> acc @ [v] | None \<Rightarrow> acc) rest"
    by (rule parseMessages_loop_frame [OF header_props(1) header_props(2)])
      (simp add: parseInt10_decimal n)
  then show ?thesis by (simp add: encodeMessage_def Let_def)
qed

lemma parseMessages_loop_prefix:
  assumes "\<forall>c \<in> set (stringify m). c < 0x80"
    and "prefix p (encodeMessage stringify m)"
    and "length p < length (encodeMessage stringify m)"
  shows "parseMessages_loop parse acc p = Some (acc, p)"
proof -
  let ?n = "byteLength (stringify m)"
  let ?h = "js ''Content-Length: '' @ decimal ?n"
  have n: "?n = length (stringify m)" using assms(1) by (rule byteLength_ascii)
  have e: "encodeMessage stringify m = ?h @ CRLFCRLF @ stringify m"
    by (simp add: encodeMessage_def Let_def)
  have l: "length CRLFCRLF = 4" "CRLFCRLF \<noteq> []" by (simp_all add: CRLFCRLF_def)
  have i: "indexOf CRLFCRLF (encodeMessage stringify m) = Some (length ?h)"
    unfolding e using header_props(1) [of ?n] indexOf_append_rest by blast
  show ?thesis
  proof (cases "length p < length ?h + 4")
    case True
    with indexOf_prefix_None [OF i assms(2)] l have "indexOf CRLFCRLF p = None" by simp
    then show ?thesis by (subst parseMessages_loop.simps) simp
  next
    case False
    from assms(2) obtain r where r: "encodeMessage stringify m = p @ r" by (auto simp: prefix_def)
    with e have "p @ r = (?h @ CRLFCRLF) @ stringify m" by simp
    then obtain us where
      "p = (?h @ CRLFCRLF) @ us \<or> p @ us = ?h @ CRLFCRLF"
      by (auto simp only: append_eq_append_conv2)
    then obtain q where p: "p = ?h @ CRLFCRLF @ q"
    proof
      assume "p = (?h @ CRLFCRLF) @ us"
      then show ?thesis using that [of us] by simp
    next
      assume a: "p @ us = ?h @ CRLFCRLF"
      then have "length p + length us = length ?h + 4" using l by (metis length_append)
      with False have "length us = 0" by linarith
      then have "us = []" by simp
      with a show ?thesis using that [of "[]"] by simp
    qed
    have ip: "indexOf CRLFCRLF p = Some (length ?h)"
      unfolding p using header_props(1) [of ?n] indexOf_append_rest by blast
    have "length p < length ?h + 4 + ?n" using assms(3) e n l by simp
    moreover have "take (length ?h) p = ?h" by (simp add: p)
    ultimately show ?thesis
      using ip header_props(2) [of ?n]
      by (subst parseMessages_loop.simps) (simp add: parseInt10_decimal)
  qed
qed

text \<open>
  Delivery in chunks: each chunk is appended to the buffer and the buffer decoded. A
  message whose JSON text is ASCII, so that its length in bytes is its length in code
  units, is decoded exactly once, and the buffer is empty afterwards, however its encoding
  is cut into chunks.
\<close>

lemma dispatch_buffer: "dispatch c msg = Inr c' \<Longrightarrow> buffer c' = buffer c"
  by (auto simp: dispatch_def Let_def settle_def split: sum.splits if_splits)

lemma dispatch_all_buffer: "buffer (fst (dispatch_all c msgs)) = buffer c"
  by (induction msgs arbitrary: c) (auto split: sum.splits dest: dispatch_buffer)

lemma client_step_Data:
  assumes "parseMessages parse (buffer c @ chunk) = Some (messages, remaining)"
  shows "\<exists>c'. client_step stringify parse c (Data chunk) = (c', [], messages) \<and> buffer c' = remaining"
proof -
  obtain d e where de: "dispatch_all (c\<lparr>buffer := remaining\<rparr>) messages = (d, e)"
    by (cases "dispatch_all (c\<lparr>buffer := remaining\<rparr>) messages")
  have "buffer d = remaining"
    using dispatch_all_buffer [of "c\<lparr>buffer := remaining\<rparr>" messages] de by simp
  then show ?thesis
    using assms de by (simp add: on_data_def processBuffer_def)
qed

lemma client_run_empty_chunks:
  assumes "buffer c = []" and "\<forall>chunk \<in> set chunks. chunk = []"
  shows "\<exists>c'. client_run stringify parse c (map Data chunks) = (c', [], []) \<and> buffer c' = []"
  using assms
proof (induction chunks arbitrary: c)
  case Nil
  then show ?case by simp
next
  case (Cons chunk chunks)
  have "parseMessages parse (buffer c @ chunk) = Some ([], [])"
    using Cons.prems unfolding parseMessages_def
    by (subst parseMessages_loop.simps) (simp add: CRLFCRLF_def)
  from client_step_Data [OF this] obtain c1 where
    s: "client_step stringify parse c (Data chunk) = (c1, [], [])" and b: "buffer c1 = []"
    by blast
  from Cons.IH [OF b] Cons.prems(2) obtain c2 where
    "client_run stringify parse c1 (map Data chunks) = (c2, [], [])" "buffer c2 = []"
    by auto
  with s show ?case by simp
qed

lemma client_run_chunks:
  assumes "\<forall>c \<in> set (stringify m). c < 0x80"
    and "parse (stringify m) = Some m"
    and "buffer c @ concat chunks = encodeMessage stringify m"
    and "length (buffer c) < length (encodeMessage stringify m)"
  shows "\<exists>c'. client_run stringify parse c (map Data chunks) = (c', [], [m]) \<and> buffer c' = []"
  using assms(3,4)
proof (induction chunks arbitrary: c)
  case Nil
  then show ?case by simp
next
  case (Cons chunk chunks)
  let ?b = "buffer c @ chunk"
  have pre: "prefix ?b (encodeMessage stringify m)"
    using Cons.prems(1) by (metis append.assoc concat.simps(2) prefixI)
  show ?case
  proof (cases "length ?b < length (encodeMessage stringify m)")
    case True
    have "parseMessages parse ?b = Some ([], ?b)"
      unfolding parseMessages_def
      using parseMessages_loop_prefix
        [where stringify = stringify and m = m and parse = parse and acc = "[]",
          OF assms(1) pre True]
      by simp
    from client_step_Data [OF this] obtain c1 where
      s: "client_step stringify parse c (Data chunk) = (c1, [], [])" and b: "buffer c1 = ?b"
      by blast
    have "buffer c1 @ concat chunks = encodeMessage stringify m"
      using Cons.prems(1) b by simp
    from Cons.IH [OF this] True b obtain c2 where
      "client_run stringify parse c1 (map Data chunks) = (c2, [], [m])" "buffer c2 = []"
      by auto
    with s show ?thesis by simp
  next
    case False
    have "length (?b @ concat chunks) = length (encodeMessage stringify m)"
      using Cons.prems(1) by simp
    with False have "length (concat chunks) = 0" unfolding length_append by linarith
    then have c0: "concat chunks = []" by (simp only: length_0_conv)
    then have rest: "\<forall>chunk \<in> set chunks. chunk = []" by simp
    have full: "?b = encodeMessage stringify m" using Cons.prems(1) c0 by simp
    have "parseMessages_loop parse [] (encodeMessage stringify m @ []) =
        parseMessages_loop parse [m] []"
      using parseMessages_loop_encoded
        [where stringify = stringify and m = m and parse = parse and acc = "[]" and rest = "[]",
          OF assms(1)] assms(2)
      by simp
    also have "\<dots> = Some ([m], [])"
      by (subst parseMessages_loop.simps) (simp add: CRLFCRLF_def)
    finally have "parseMessages parse ?b = Some ([m], [])"
      by (simp add: parseMessages_def full)
    from client_step_Data [OF this] obtain c1 where
      s: "client_step stringify parse c (Data chunk) = (c1, [], [m])" and b: "buffer c1 = []"
      by blast
    from client_run_empty_chunks [OF b rest] obtain c2 where
      "client_run stringify parse c1 (map Data chunks) = (c2, [], [])" "buffer c2 = []"
      by blast
    with s show ?thesis by simp
  qed
qed

lemma roundtrip_ascii_chunks:
  assumes "\<forall>c \<in> set (stringify m). c < 0x80"
    and "parse (stringify m) = Some m"
    and "concat chunks = encodeMessage stringify m"
    and "buffer c = []"
  shows "\<exists>c'. client_run stringify parse c (map Data chunks) = (c', [], [m]) \<and> buffer c' = []"
proof -
  have "encodeMessage stringify m \<noteq> []" by (simp add: encodeMessage_def Let_def js_def)
  then have "length (buffer c) < length (encodeMessage stringify m)" using assms(4) by simp
  moreover have "buffer c @ concat chunks = encodeMessage stringify m" using assms(3,4) by simp
  ultimately show ?thesis
    using client_run_chunks [where stringify = stringify and m = m and parse = parse, OF assms(1,2)]
    by blast
qed

subsection \<open>A message with a non-ASCII character\<close>

text \<open>
  C1: the round trip fails on the message \<open>{"a":"e"}\<close> with U+00E9 in place of \<open>e\<close>, whose text has 9 code units and
  10 bytes: \<open>encodeMessage\<close> announces 10, \<open>parseMessages\<close> waits for 10 code units
  after the header, returns no message and keeps the whole buffer.
\<close>

theorem roundtrip_fails_on_non_ascii:
  "sample_parse (sample_stringify (JObj [(js ''a'', JStr [0xE9])])) = Some (JObj [(js ''a'', JStr [0xE9])]) \<and>
   encodeMessage sample_stringify (JObj [(js ''a'', JStr [0xE9])]) =
     js ''Content-Length: 10'' @ CRLFCRLF @ js ''{\"a\":\"'' @ [0xE9] @ js ''\"}'' \<and>
   parseMessages sample_parse (encodeMessage sample_stringify (JObj [(js ''a'', JStr [0xE9])])) =
     Some ([], encodeMessage sample_stringify (JObj [(js ''a'', JStr [0xE9])]))"
  by code_simp

text \<open>
  C7: two complete frames followed by an incomplete header are not decoded as stated when
  the first payload has a non-ASCII character. For the frames of \<open>{"a":"e"}\<close>, with U+00E9
  in place of \<open>e\<close>, and of \<open>{}\<close>, as \<open>encodeMessage\<close> writes them, followed by
  \<open>Content-Le\<close>, the first payload is cut one code unit too late and does not parse, the
  second header has lost its first letter and is skipped as malformed: no message is
  returned and \<open>{}Content-Le\<close> remains.
\<close>

theorem frames_after_non_ascii_lost:
  "sample_parse (sample_stringify (JObj [(js ''a'', JStr [0xE9])])) = Some (JObj [(js ''a'', JStr [0xE9])]) \<and>
   sample_parse (sample_stringify (JObj [])) = Some (JObj []) \<and>
   indexOf CRLFCRLF (js ''Content-Le'') = None \<and>
   parseMessages sample_parse
     (encodeMessage sample_stringify (JObj [(js ''a'', JStr [0xE9])]) @
      encodeMessage sample_stringify (JObj []) @ js ''Content-Le'') =
     Some ([], js ''{}Content-Le'')"
  by code_simp

section \<open>Properties of port allocation\<close>


lemma listen_stop: "listen bound port = Some b \<Longrightarrow> stop b port = bound"
  by (auto simp: listen_def stop_def split: if_splits)

lemma findFreePort_loop_bound: "snd (findFreePort_loop bound start port) = bound"
proof (induction bound start port rule: findFreePort_loop.induct)
  case (1 bound start port)
  then show ?case
    by (cases "listen bound port") (simp_all add: listen_stop)
qed

lemma findFreePort_loop_Inr:
  "fst (findFreePort_loop bound start port) = Inr p \<longleftrightarrow>
   port \<le> p \<and> p < start + 100 \<and> p \<notin> bound \<and> (\<forall>q. port \<le> q \<and> q < p \<longrightarrow> q \<in> bound)"
proof (induction bound start port rule: findFreePort_loop.induct)
  case (1 bound start port)
  show ?case
  proof (cases "port < start + 100")
    case False
    then show ?thesis by auto
  next
    case True
    show ?thesis
    proof (cases "port \<in> bound")
      case False
      have "fst (findFreePort_loop bound start port) = Inr port"
        using True False by (simp add: listen_def)
      moreover have "(port \<le> p \<and> p < start + 100 \<and> p \<notin> bound \<and>
          (\<forall>q. port \<le> q \<and> q < p \<longrightarrow> q \<in> bound)) \<longleftrightarrow> p = port"
      proof
        assume a: "port \<le> p \<and> p < start + 100 \<and> p \<notin> bound \<and>
          (\<forall>q. port \<le> q \<and> q < p \<longrightarrow> q \<in> bound)"
        show "p = port"
        proof (rule ccontr)
          assume "p \<noteq> port"
          with a have "port < p" by simp
          with a have "port \<in> bound" by blast
          with False show False by simp
        qed
      next
        assume "p = port"
        with True False show "port \<le> p \<and> p < start + 100 \<and> p \<notin> bound \<and>
          (\<forall>q. port \<le> q \<and> q < p \<longrightarrow> q \<in> bound)" by auto
      qed
      ultimately show ?thesis by auto
    next
      case inb: True
      have l: "listen bound port = None" using inb by (simp add: listen_def)
      have "fst (findFreePort_loop bound start port) = fst (findFreePort_loop bound start (port + 1))"
        using True l by simp
      moreover have "(port + 1 \<le> p \<and> p < start + 100 \<and> p \<notin> bound \<and>
          (\<forall>q. port + 1 \<le> q \<and> q < p \<longrightarrow> q \<in> bound)) \<longleftrightarrow>
         (port \<le> p \<and> p < start + 100 \<and> p \<notin> bound \<and>
          (\<forall>q. port \<le> q \<and> q < p \<longrightarrow> q \<in> bound))"
        using inb by (metis Suc_eq_plus1 Suc_leI le_neq_implies_less Suc_leD)
      ultimately show ?thesis using "1.IH" [OF True l] by simp
    qed
  qed
qed

lemma findFreePort_loop_Inl:
  "fst (findFreePort_loop bound start port) = Inl e \<longleftrightarrow>
   e = NoFreePort \<and> (\<forall>q. port \<le> q \<and> q < start + 100 \<longrightarrow> q \<in> bound)"
proof (induction bound start port rule: findFreePort_loop.induct)
  case (1 bound start port)
  show ?case
  proof (cases "port < start + 100")
    case False
    then show ?thesis by auto
  next
    case True
    show ?thesis
    proof (cases "port \<in> bound")
      case False
      then show ?thesis using True by (auto simp: listen_def)
    next
      case inb: True
      have l: "listen bound port = None" using inb by (simp add: listen_def)
      have "(\<forall>q. port + 1 \<le> q \<and> q < start + 100 \<longrightarrow> q \<in> bound) \<longleftrightarrow>
            (\<forall>q. port \<le> q \<and> q < start + 100 \<longrightarrow> q \<in> bound)"
        using inb by (metis Suc_eq_plus1 Suc_leI le_neq_implies_less Suc_leD)
      then show ?thesis using "1.IH" [OF True l] True l by simp
    qed
  qed
qed

text \<open>
  C5: \<open>spawnDaemon\<close> starts the search at \<open>BASE_PORT + (parseInt(hash, 16) mod 100)\<close>.
  From a start, \<open>findFreePort\<close> returns a port exactly when it lies among the 100 ports
  from the start on, can be bound, and no port from the start up to it can; it throws
  exactly when none of the 100 ports can be bound, and then the error is "No free port
  found". The probe leaves bound what was bound: the port it binds it releases.
\<close>

theorem spawnDaemon_port_allocation:
  "spawnDaemon_port hashPath (Some raPath) bound projectPath =
     findFreePort bound (BASE_PORT + parseInt16 (hashPath projectPath) mod 100) \<and>
   snd (findFreePort bound start) = bound \<and>
   (\<forall>p. fst (findFreePort bound start) = Inr p \<longleftrightarrow>
      start \<le> p \<and> p < start + 100 \<and> p \<notin> bound \<and> (\<forall>q. start \<le> q \<and> q < p \<longrightarrow> q \<in> bound)) \<and>
   (\<forall>e. fst (findFreePort bound start) = Inl e \<longleftrightarrow>
      e = NoFreePort \<and> (\<forall>q. start \<le> q \<and> q < start + 100 \<longrightarrow> q \<in> bound))"
  by (simp add: spawnDaemon_port_def findFreePort_def findFreePort_loop_bound
      findFreePort_loop_Inr findFreePort_loop_Inl del: findFreePort_loop.simps)


theorem spawnDaemon_port_allocation_witness:
  "spawnDaemon_port (\<lambda>p. js ''0000012d'') (Some (js ''/bin/rust-analyzer'')) {19201, 19202} (js ''/proj'') =
     (Inr 19203, {19201, 19202})"
proof -
  have h: "BASE_PORT + parseInt16 (js ''0000012d'') mod 100 = 19201"
    by (simp add: parseInt16_def js_def hex_val_def BASE_PORT_def)
  note alloc = spawnDaemon_port_allocation
    [of "\<lambda>p. js ''0000012d''" "js ''/bin/rust-analyzer''" "{19201, 19202}" "js ''/proj''" 19201]
  from alloc have a: "spawnDaemon_port (\<lambda>p. js ''0000012d'') (Some (js ''/bin/rust-analyzer''))
      {19201, 19202} (js ''/proj'') = findFreePort {19201, 19202} 19201"
    unfolding h by (rule conjunct1)
  from alloc have b: "snd (findFreePort {19201, 19202} 19201) = {19201, 19202}"
    by blast
  from alloc have c: "fst (findFreePort {19201, 19202} 19201) = Inr 19203 \<longleftrightarrow>
      (19201::nat) \<le> 19203 \<and> (19203::nat) < 19201 + 100 \<and> (19203::nat) \<notin> {19201, 19202} \<and>
      (\<forall>q. 19201 \<le> q \<and> q < 19203 \<longrightarrow> q \<in> {19201, 19202::nat})"
    by blast
  have "\<forall>q::nat. 19201 \<le> q \<and> q < 19203 \<longrightarrow> q \<in> {19201, 19202}" by auto
  with c have "fst (findFreePort {19201, 19202} 19201) = Inr 19203" by simp
  with a b show ?thesis by (simp add: prod_eq_iff)
qed

section \<open>Properties of the daemon state store\<close>


text \<open>
  C4, amended: when the record file exists and parses to a record, \<open>getDaemonState\<close>
  returns that record and leaves the file if signal 0 can be sent to the process under
  \<open>pid\<close>, and deletes the file and returns \<open>null\<close> if it cannot, whatever the reason:
  no process has that id, the process exists but the caller may not signal it, or the
  value is no process id. When the file is missing, or its text does not parse, or parses
  to \<open>null\<close>, it returns \<open>null\<close> without throwing and changes nothing.
\<close>

theorem getDaemonState_lookup:
  "(fs (getStatePath hashPath projectPath) = Some text \<and> parse text = Some state \<and>
      state \<noteq> JNull \<and> kill0 (get_prop state (js ''pid'')) = Signalled \<longrightarrow>
    getDaemonState hashPath parse kill0 fs projectPath = (Some state, fs)) \<and>
   (fs (getStatePath hashPath projectPath) = Some text \<and> parse text = Some state \<and>
      state \<noteq> JNull \<and> kill0 (get_prop state (js ''pid'')) \<noteq> Signalled \<longrightarrow>
    getDaemonState hashPath parse kill0 fs projectPath =
      (None, fs(getStatePath hashPath projectPath := None))) \<and>
   (fs (getStatePath hashPath projectPath) = None \<longrightarrow>
    getDaemonState hashPath parse kill0 fs projectPath = (None, fs)) \<and>
   (fs (getStatePath hashPath projectPath) = Some text \<and> (parse text = None \<or> parse text = Some JNull) \<longrightarrow>
    getDaemonState hashPath parse kill0 fs projectPath = (None, fs))"
  by (auto simp: getDaemonState_def member_def isProcessRunning_def
      split: json.splits kill_result.splits)

theorem getDaemonState_lookup_witness:
  "getDaemonState (\<lambda>p. js ''0000012d'') (\<lambda>s. if s = js ''record'' then Some sample_record else None)
     (\<lambda>pid. if pid = Some (JNum 4242) then Signalled else ESRCH)
     [js ''/tmp/claude-lsp/ra-0000012d.json'' \<mapsto> js ''record''] (js ''/proj'') =
     (Some sample_record, [js ''/tmp/claude-lsp/ra-0000012d.json'' \<mapsto> js ''record'']) \<and>
   getDaemonState (\<lambda>p. js ''0000012d'') (\<lambda>s. if s = js ''record'' then Some sample_record else None)
     (\<lambda>pid. ESRCH) [js ''/tmp/claude-lsp/ra-0000012d.json'' \<mapsto> js ''record''] (js ''/proj'') =
     (None, Map.empty) \<and>
   getDaemonState (\<lambda>p. js ''0000012d'') (\<lambda>s. if s = js ''record'' then Some sample_record else None)
     (\<lambda>pid. Signalled) Map.empty (js ''/proj'') = (None, Map.empty) \<and>
   getDaemonState (\<lambda>p. js ''0000012d'') (\<lambda>s. if s = js ''record'' then Some sample_record else None)
     (\<lambda>pid. Signalled) [js ''/tmp/claude-lsp/ra-0000012d.json'' \<mapsto> js ''{pid''] (js ''/proj'') =
     (None, [js ''/tmp/claude-lsp/ra-0000012d.json'' \<mapsto> js ''{pid'']) \<and>
   getDaemonState (\<lambda>p. js ''0000012d'') (\<lambda>s. if s = js ''record'' then Some sample_record else None)
     (\<lambda>pid. InvalidPid) [js ''/tmp/claude-lsp/ra-0000012d.json'' \<mapsto> js ''record''] (js ''/proj'') =
     (None, Map.empty)"
proof -
  let ?h = "\<lambda>p::jsstring. js ''0000012d''"
  let ?parse = "\<lambda>s. if s = js ''record'' then Some sample_record else None"
  let ?path = "js ''/tmp/claude-lsp/ra-0000012d.json''"
  let ?live = "\<lambda>pid. if pid = Some (JNum 4242) then Signalled else ESRCH"
  have p: "getStatePath ?h (js ''/proj'') = ?path"
    by (simp add: getStatePath_def STATE_DIR_def js_def)
  have n: "sample_record \<noteq> JNull" by (simp add: sample_record_def)
  have pid: "get_prop sample_record (js ''pid'') = Some (JNum 4242)"
    by (simp add: sample_record_def get_prop_def js_def)
  have ne: "js ''{pid'' \<noteq> js ''record''" by (simp add: js_def)
  have 1: "getDaemonState ?h ?parse ?live [?path \<mapsto> js ''record''] (js ''/proj'') =
     (Some sample_record, [?path \<mapsto> js ''record''])"
    using getDaemonState_lookup [of "[?path \<mapsto> js ''record'']" ?h "js ''/proj''" "js ''record''" ?parse
        sample_record ?live] p n pid
    by simp
  have 2: "getDaemonState ?h ?parse (\<lambda>pid. ESRCH) [?path \<mapsto> js ''record''] (js ''/proj'') =
     (None, Map.empty)"
    using getDaemonState_lookup [of "[?path \<mapsto> js ''record'']" ?h "js ''/proj''" "js ''record''" ?parse
        sample_record "\<lambda>pid. ESRCH"] p n
    by simp
  have 3: "getDaemonState ?h ?parse (\<lambda>pid. Signalled) Map.empty (js ''/proj'') = (None, Map.empty)"
    using getDaemonState_lookup [of Map.empty ?h "js ''/proj''" "[]" ?parse JNull "\<lambda>pid. Signalled"]
    by simp
  have 4: "getDaemonState ?h ?parse (\<lambda>pid. Signalled) [?path \<mapsto> js ''{pid''] (js ''/proj'') =
     (None, [?path \<mapsto> js ''{pid''])"
    using getDaemonState_lookup [of "[?path \<mapsto> js ''{pid'']" ?h "js ''/proj''" "js ''{pid''" ?parse
        JNull "\<lambda>pid. Signalled"] p ne
    by simp
  have 5: "getDaemonState ?h ?parse (\<lambda>pid. InvalidPid) [?path \<mapsto> js ''record''] (js ''/proj'') =
     (None, Map.empty)"
    using getDaemonState_lookup [of "[?path \<mapsto> js ''record'']" ?h "js ''/proj''" "js ''record''" ?parse
        sample_record "\<lambda>pid. InvalidPid"] p n
    by simp
  from 1 2 3 4 5 show ?thesis by blast
qed

text \<open>
  C4 as stated fails for a live process that the caller may not signal: the record names
  process 4242, which exists, \<open>process.kill\<close> throws EPERM, and the record is deleted and
  \<open>null\<close> returned.
\<close>

theorem getDaemonState_live_unsignallable_counterexample:
  "process_exists ((\<lambda>pid. if pid = Some (JNum 4242) then EPERM else ESRCH)
     (get_prop sample_record (js ''pid''))) \<and>
   getDaemonState (\<lambda>p. js ''0000012d'') (\<lambda>s. if s = js ''record'' then Some sample_record else None)
     (\<lambda>pid. if pid = Some (JNum 4242) then EPERM else ESRCH)
     [js ''/tmp/claude-lsp/ra-0000012d.json'' \<mapsto> js ''record''] (js ''/proj'') =
     (None, Map.empty)"
proof -
  have p: "getStatePath (\<lambda>p. js ''0000012d'') (js ''/proj'') = js ''/tmp/claude-lsp/ra-0000012d.json''"
    by (simp add: getStatePath_def STATE_DIR_def js_def)
  have pid: "get_prop sample_record (js ''pid'') = Some (JNum 4242)"
    by (simp add: sample_record_def get_prop_def js_def)
  have n: "sample_record \<noteq> JNull" by (simp add: sample_record_def)
  show ?thesis
    using n by (simp add: getDaemonState_def p pid member_def isProcessRunning_def process_exists_def
        split: json.splits)
qed

section \<open>Properties of the client\<close>

subsection \<open>Diagnostics pushes\<close>

text \<open>
  C6: dispatching a \<open>textDocument/publishDiagnostics\<close> message that is not the response
  to a pending request (a notification carries no id) sets the entry of its URI to the
  diagnostics it carries, whatever the entry was, and changes nothing else: not the
  entries of other URIs, nor any other field of the client.
\<close>

theorem dispatch_publishDiagnostics:
  assumes "\<not> pending_has c (get_prop (JObj props) (js ''id''))"
    and "map_of props (js ''method'') = Some (JStr (js ''textDocument/publishDiagnostics''))"
    and "map_of props (js ''params'') = Some params"
    and "params \<noteq> JNull"
    and "get_prop params (js ''uri'') = Some (JStr uri)"
  shows "dispatch c (JObj props) =
           Inr (c\<lparr>diagnostics := (diagnostics c)(uri \<mapsto> get_prop params (js ''diagnostics''))\<rparr>)"
  using assms
  by (simp add: dispatch_def has_id_def get_prop_def member_def diagnostics_set_def split: json.splits)

theorem dispatch_publishDiagnostics_witness:
  "dispatch
     (new_client\<lparr>diagnostics :=
        [js ''file:///a.rs'' \<mapsto> Some (JArr [sample_diagnostic, sample_diagnostic]),
         js ''file:///b.rs'' \<mapsto> Some (JArr [sample_diagnostic])]\<rparr>)
     empty_push =
   Inr (new_client\<lparr>diagnostics :=
        [js ''file:///a.rs'' \<mapsto> Some (JArr []),
         js ''file:///b.rs'' \<mapsto> Some (JArr [sample_diagnostic])]\<rparr>)"
proof -
  let ?c = "new_client\<lparr>diagnostics :=
        [js ''file:///a.rs'' \<mapsto> Some (JArr [sample_diagnostic, sample_diagnostic]),
         js ''file:///b.rs'' \<mapsto> Some (JArr [sample_diagnostic])]\<rparr>"
  let ?props = "[(js ''jsonrpc'', JStr (js ''2.0'')),
           (js ''method'', JStr (js ''textDocument/publishDiagnostics'')),
           (js ''params'', JObj [(js ''uri'', JStr (js ''file:///a.rs'')), (js ''diagnostics'', JArr [])])]"
  let ?params = "JObj [(js ''uri'', JStr (js ''file:///a.rs'')), (js ''diagnostics'', JArr [])]"
  have 1: "\<not> pending_has ?c (get_prop (JObj ?props) (js ''id''))"
    by (simp add: pending_has_def get_prop_def js_def)
  have 2: "map_of ?props (js ''method'') = Some (JStr (js ''textDocument/publishDiagnostics''))"
    by (simp add: js_def)
  have 3: "map_of ?props (js ''params'') = Some ?params"
    by (simp add: js_def)
  have 4: "?params \<noteq> JNull" by simp
  have 5: "get_prop ?params (js ''uri'') = Some (JStr (js ''file:///a.rs''))"
    by (simp add: get_prop_def js_def)
  have 6: "get_prop ?params (js ''diagnostics'') = Some (JArr [])"
    by (simp add: get_prop_def js_def)
  have ne: "js ''file:///a.rs'' \<noteq> js ''file:///b.rs''" by (simp add: js_def)
  from dispatch_publishDiagnostics [OF 1 2 3 4 5]
  show ?thesis unfolding 6 empty_push_def
    using ne by (simp add: fun_upd_twist)
qed

subsection \<open>Requests, their ids and their timeouts\<close>

lemma settle_fields:
  "pending (settle p outcome c) = pending c"
  "requestId (settle p outcome c) = requestId c"
  "socket (settle p outcome c) = socket c"
  "buffer (settle p outcome c) = buffer c"
  "diagnostics (settle p outcome c) = diagnostics c"
  "timers (settle p outcome c) = timers c"
  "promises (settle p outcome c) q =
     (if q = p \<and> promises c p = Some Unsettled then Some outcome else promises c q)"
  by (simp_all add: settle_def)

lemma send_fields:
  "pending (send stringify msg c) = pending c"
  "requestId (send stringify msg c) = requestId c"
  "promises (send stringify msg c) = promises c"
  "buffer (send stringify msg c) = buffer c"
  "diagnostics (send stringify msg c) = diagnostics c"
  "timers (send stringify msg c) = timers c"
  "socket (send stringify msg c) =
     map_option (\<lambda>s. s\<lparr>written := written s @ [encodeMessage stringify msg]\<rparr>) (socket c)"
  by (simp_all add: send_def split: option.splits)

lemma request_fields:
  assumes "request stringify now method params c = (i, c')"
  shows "i = increment (requestId c)" "requestId c' = i" "pending c' = insert i (pending c)"
    "promises c' = (promises c)(i \<mapsto> Unsettled)" "diagnostics c' = diagnostics c"
    "buffer c' = buffer c" "timers c' = timers c @ [(now + REQUEST_TIMEOUT_MS, i)]"
    "socket c' =
       map_option (\<lambda>s. s\<lparr>written := written s @
          [encodeMessage stringify (request_message i method params)]\<rparr>) (socket c)"
  using assms by (auto simp: request_def Let_def send_fields)

lemma request_timeout_fields:
  "requestId (request_timeout j c) = requestId c"
  "pending (request_timeout j c) = pending c - {j}"
  "socket (request_timeout j c) = socket c"
  "buffer (request_timeout j c) = buffer c"
  "diagnostics (request_timeout j c) = diagnostics c"
  "timers (request_timeout j c) = timers c"
  "q \<noteq> j \<Longrightarrow> promises (request_timeout j c) q = promises c q"
  by (auto simp: request_timeout_def settle_fields)

text \<open>What one dispatched message leaves alone.\<close>

lemma dispatch_requestId: "dispatch c msg = Inr c' \<Longrightarrow> requestId c' = requestId c"
  by (auto simp: dispatch_def Let_def settle_fields split: sum.splits if_splits)


lemma dispatch_all_requestId: "requestId (fst (dispatch_all c msgs)) = requestId c"
  by (induction msgs arbitrary: c) (auto split: sum.splits dest: dispatch_requestId)

lemma dispatch_socket: "dispatch c msg = Inr c' \<Longrightarrow> socket c' = socket c"
  by (auto simp: dispatch_def Let_def settle_fields split: sum.splits if_splits)

lemma dispatch_all_socket: "socket (fst (dispatch_all c msgs)) = socket c"
  by (induction msgs arbitrary: c) (auto split: sum.splits dest: dispatch_socket)


lemma on_data_result:
  assumes "on_data parse chunk c = Some (c', e)"
  obtains messages remaining where
    "parseMessages parse (buffer c @ chunk) = Some (messages, remaining)"
    "c' = fst (dispatch_all (c\<lparr>buffer := remaining\<rparr>) messages)"
  using assms
  by (auto simp: on_data_def processBuffer_def split: option.splits prod.splits)

lemma client_step_requestId:
  assumes "client_step stringify parse c ev = (c', ids, msgs)"
  shows "ids = [] \<and> requestId c' = requestId c \<or>
         ids = [increment (requestId c)] \<and> requestId c' = increment (requestId c)"
proof (cases ev)
  case (Request now name args)
  with assms show ?thesis
    by (auto split: prod.splits dest: request_fields(1,2))
next
  case (Data chunk)
  show ?thesis
  proof (cases "on_data parse chunk c")
    case None
    with assms Data show ?thesis by (auto split: option.splits prod.splits)
  next
    case (Some r)
    obtain d e where r: "r = (d, e)" by (cases r)
    from Some r obtain messages remaining where
      "d = fst (dispatch_all (c\<lparr>buffer := remaining\<rparr>) messages)"
      by (auto elim: on_data_result)
    then have "requestId d = requestId c" by (simp add: dispatch_all_requestId)
    moreover from assms Data Some r have "ids = []" "c' = d \<or> c' = c"
      by (auto split: option.splits prod.splits)
    ultimately show ?thesis by auto
  qed
qed (use assms in \<open>auto simp: connect_def close_def notify_def send_fields request_timeout_fields
      split: option.splits\<close>)

lemma client_run_ids:
  assumes "client_run stringify parse c evs = (c', ids, msgs)"
    and "requestId c + int (length ids) \<le> 2 ^ 53"
  shows "requestId c' = requestId c + int (length ids) \<and> sorted_wrt (<) ids \<and>
         (\<forall>i \<in> set ids. requestId c < i \<and> i \<le> requestId c')"
  using assms
proof (induction evs arbitrary: c c' ids msgs)
  case Nil
  then show ?case by simp
next
  case (Cons ev evs)
  obtain c1 ids1 msgs1 where s: "client_step stringify parse c ev = (c1, ids1, msgs1)"
    by (cases "client_step stringify parse c ev") auto
  obtain c2 ids2 msgs2 where r: "client_run stringify parse c1 evs = (c2, ids2, msgs2)"
    by (cases "client_run stringify parse c1 evs") auto
  from Cons.prems(1) s r have e: "c' = c2" "ids = ids1 @ ids2" by simp_all
  from client_step_requestId [OF s] show ?case
  proof
    assume a: "ids1 = [] \<and> requestId c1 = requestId c"
    with Cons.prems(2) e have "requestId c1 + int (length ids2) \<le> 2 ^ 53" by simp
    from Cons.IH [OF r this] a e show ?thesis by auto
  next
    assume a: "ids1 = [increment (requestId c)] \<and> requestId c1 = increment (requestId c)"
    with Cons.prems(2) e have "requestId c < 2 ^ 53" by simp
    then have i: "increment (requestId c) = requestId c + 1" by (simp add: increment_def)
    with a Cons.prems(2) e have "requestId c1 + int (length ids2) \<le> 2 ^ 53" by simp
    from Cons.IH [OF r this] a e i show ?thesis by (fastforce simp: sorted_wrt_append)
  qed
qed

text \<open>What a connected client writes to its socket.\<close>

lemma client_step_written:
  assumes "client_step stringify parse c ev = (c', ids, msgs)"
    and "socket c = Some s" and "ev \<noteq> Connect"
  shows "\<exists>s'. socket c' = Some s' \<and>
           written s' = written s @ map (encodeMessage stringify) (outbound [ev] ids)"
proof (cases ev)
  case Connect
  with assms(3) show ?thesis by simp
next
  case (Request now name args)
  obtain j d where r: "request stringify now name args c = (j, d)"
    by (cases "request stringify now name args c")
  with assms(1) Request have "c' = d" "ids = [j]" by simp_all
  with request_fields(8) [OF r] assms(2) Request show ?thesis by simp
next
  case (Notify name args)
  with assms show ?thesis by (auto simp: notify_def send_def)
next
  case (Data chunk)
  show ?thesis
  proof (cases "on_data parse chunk c")
    case None
    with assms Data show ?thesis by (auto split: option.splits prod.splits)
  next
    case (Some r)
    obtain d e where r: "r = (d, e)" by (cases r)
    from Some r obtain messages remaining where
      "d = fst (dispatch_all (c\<lparr>buffer := remaining\<rparr>) messages)"
      by (auto elim: on_data_result)
    then have "socket d = socket c" by (simp add: dispatch_all_socket)
    moreover from assms Data Some r have "ids = []" "c' = d \<or> c' = c"
      by (auto split: option.splits prod.splits)
    ultimately show ?thesis using assms(2) Data by auto
  qed
next
  case (TimerFired j)
  with assms show ?thesis by (auto simp: request_timeout_fields)
next
  case Close
  with assms show ?thesis by (auto simp: close_def)
qed

lemma outbound_step:
  assumes "client_step stringify parse c ev = (c', ids, msgs)"
  shows "outbound (ev # evs) (ids @ ids') = outbound [ev] ids @ outbound evs ids'"
proof (cases ev)
  case (Request now name args)
  with assms show ?thesis by (auto split: prod.splits)
next
  case (Data chunk)
  with assms show ?thesis by (auto split: option.splits prod.splits)
qed (use assms in auto)

lemma client_run_written:
  assumes "client_run stringify parse c evs = (c', ids, msgs)"
    and "socket c = Some s" and "Connect \<notin> set evs"
  shows "\<exists>s'. socket c' = Some s' \<and>
           written s' = written s @ map (encodeMessage stringify) (outbound evs ids)"
  using assms
proof (induction evs arbitrary: c c' ids msgs s)
  case Nil
  then show ?case by simp
next
  case (Cons ev evs)
  obtain c1 ids1 msgs1 where s: "client_step stringify parse c ev = (c1, ids1, msgs1)"
    by (cases "client_step stringify parse c ev") auto
  obtain c2 ids2 msgs2 where r: "client_run stringify parse c1 evs = (c2, ids2, msgs2)"
    by (cases "client_run stringify parse c1 evs") auto
  from Cons.prems(1) s r have e: "c' = c2" "ids = ids1 @ ids2" by simp_all
  from Cons.prems(3) have ne: "ev \<noteq> Connect" and rest: "Connect \<notin> set evs" by auto
  from client_step_written [OF s Cons.prems(2) ne] obtain s1 where
    s1: "socket c1 = Some s1"
      "written s1 = written s @ map (encodeMessage stringify) (outbound [ev] ids1)"
    by blast
  from Cons.IH [OF r s1(1) rest] obtain s2 where
    s2: "socket c2 = Some s2"
      "written s2 = written s1 @ map (encodeMessage stringify) (outbound evs ids2)"
    by blast
  have "outbound (ev # evs) ids = outbound [ev] ids1 @ outbound evs ids2"
    unfolding e by (rule outbound_step [OF s])
  with s1 s2 e show ?case by simp
qed

text \<open>
  C10, amended: along any sequence of events of one client that does not take the counter
  beyond \<open>2^53\<close>, the ids issued, in the order of issue, strictly increase, each greater
  than every id issued before it, so no two requests share an id, and each is greater than
  the counter the client started from. These are the ids on the wire: what a connected
  client writes during the events are the encodings of the objects its requests and
  notifications send, each request carrying the id issued to it.
\<close>

theorem request_ids_strictly_increase:
  assumes "client_run stringify parse c evs = (c', ids, msgs)"
    and "requestId c + int (length ids) \<le> 2 ^ 53"
  shows "sorted_wrt (<) ids \<and> distinct ids \<and> (\<forall>i \<in> set ids. requestId c < i) \<and>
         (\<forall>s. socket c = Some s \<and> Connect \<notin> set evs \<longrightarrow>
            (\<exists>s'. socket c' = Some s' \<and>
               written s' = written s @ map (encodeMessage stringify) (outbound evs ids)))"
proof -
  from client_run_ids [OF assms] have s: "sorted_wrt (<) ids" and g: "\<forall>i \<in> set ids. requestId c < i"
    by simp_all
  from s have "distinct ids" by (simp add: strict_sorted_iff)
  with s g client_run_written [OF assms(1)] show ?thesis by blast
qed

theorem request_ids_strictly_increase_witness:
  "fst (snd (client_run sample_stringify sample_parse (connect new_client)
      [Request 0 (js ''initialize'') None, Request 10 (js ''initialize'') None,
       TimerFired 1, Request 20 (js ''initialize'') None])) = [1, 2, 3] \<and>
   sorted_wrt (<) [1, 2, 3 :: int] \<and> distinct [1, 2, 3 :: int] \<and>
   requestId (connect new_client) < 1 \<and>
   map_option written (socket (fst (client_run sample_stringify sample_parse (connect new_client)
      [Request 0 (js ''initialize'') None, Request 10 (js ''initialize'') None,
       TimerFired 1, Request 20 (js ''initialize'') None]))) =
     Some [encodeMessage sample_stringify (initialize_request 1),
           encodeMessage sample_stringify (initialize_request 2),
           encodeMessage sample_stringify (initialize_request 3)]"
proof -
  let ?evs = "[Request 0 (js ''initialize'') None, Request 10 (js ''initialize'') None,
       TimerFired 1, Request 20 (js ''initialize'') None]"
  let ?run = "client_run sample_stringify sample_parse (connect new_client) ?evs"
  have ids: "fst (snd ?run) = [1, 2, 3]" by code_simp
  have run: "?run = (fst ?run, fst (snd ?run), snd (snd ?run))" by simp
  have b: "requestId (connect new_client) + int (length (fst (snd ?run))) \<le> 2 ^ 53"
    unfolding ids by (simp add: connect_def new_client_def)
  have so: "socket (connect new_client) = Some \<lparr>written = [], ended = False\<rparr>"
    by (simp add: connect_def)
  have nc: "Connect \<notin> set ?evs" by simp
  have ob: "outbound ?evs [1, 2, 3] =
      [initialize_request 1, initialize_request 2, initialize_request 3]"
    by (simp add: request_message_def initialize_request_def)
  from request_ids_strictly_increase [OF run b] so nc
  obtain s' where "socket (fst ?run) = Some s'"
    "written s' = written \<lparr>written = [], ended = False\<rparr> @
       map (encodeMessage sample_stringify) (outbound ?evs (fst (snd ?run)))"
    by blast
  then have w: "map_option written (socket (fst ?run)) =
     Some [encodeMessage sample_stringify (initialize_request 1),
           encodeMessage sample_stringify (initialize_request 2),
           encodeMessage sample_stringify (initialize_request 3)]"
    unfolding ids ob by simp
  from request_ids_strictly_increase [OF run b] ids w show ?thesis
    by (simp add: connect_def new_client_def)
qed

text \<open>
  C10 as stated fails once the counter has reached \<open>2^53\<close>: a client that has issued
  \<open>2^53 - 1\<close> requests issues the id \<open>2^53\<close> to the next request and again to the one
  after it.
\<close>

theorem request_id_repeats_counterexample:
  "fst (snd (client_run sample_stringify sample_parse (new_client\<lparr>requestId := 2 ^ 53 - 1\<rparr>)
      [Request 0 (js ''initialize'') None, Request 10 (js ''initialize'') None])) =
     [9007199254740992, 9007199254740992]"
  by (simp add: request_def increment_def Let_def send_def new_client_def)





subsection \<open>Waiting for diagnostics\<close>

lemma waitForDiagnostics_loop_found:
  assumes "now + 100 * int k - start < timeoutMs"
    and "diagnostics_at (now + 100 * int k) uri = Some (Some d)"
    and "\<forall>j<k. \<forall>v. diagnostics_at (now + 100 * int j) uri \<noteq> Some (Some v)"
  shows "waitForDiagnostics_loop diagnostics_at uri timeoutMs start now = (d, now + 100 * int k)"
  using assms
proof (induction k arbitrary: now)
  case 0
  then show ?case by (subst waitForDiagnostics_loop.simps) simp
next
  case (Suc k)
  have lt: "now - start < timeoutMs" using Suc.prems(1) by simp
  have no: "\<forall>v. diagnostics_at now uri \<noteq> Some (Some v)"
    using Suc.prems(3) [rule_format, of 0] by simp
  have step: "waitForDiagnostics_loop diagnostics_at uri timeoutMs start now =
      waitForDiagnostics_loop diagnostics_at uri timeoutMs start (now + 100)"
    using lt no by (subst waitForDiagnostics_loop.simps) (auto split: option.splits)
  have "waitForDiagnostics_loop diagnostics_at uri timeoutMs start (now + 100) =
      (d, now + 100 + 100 * int k)"
  proof (rule Suc.IH)
    show "now + 100 + 100 * int k - start < timeoutMs" using Suc.prems(1) by simp
    show "diagnostics_at (now + 100 + 100 * int k) uri = Some (Some d)"
      using Suc.prems(2) by (simp add: algebra_simps)
    show "\<forall>j<k. \<forall>v. diagnostics_at (now + 100 + 100 * int j) uri \<noteq> Some (Some v)"
    proof (intro allI impI)
      fix j v assume "j < k"
      then have "diagnostics_at (now + 100 * int (Suc j)) uri \<noteq> Some (Some v)"
        using Suc.prems(3) by auto
      then show "diagnostics_at (now + 100 + 100 * int j) uri \<noteq> Some (Some v)"
        by (simp add: algebra_simps)
    qed
  qed
  with step show ?case by (simp add: algebra_simps)
qed

lemma waitForDiagnostics_loop_timeout:
  assumes "\<forall>k. now + 100 * int k - start < timeoutMs \<longrightarrow>
             (\<forall>v. diagnostics_at (now + 100 * int k) uri \<noteq> Some (Some v))"
  shows "fst (waitForDiagnostics_loop diagnostics_at uri timeoutMs start now) = JArr [] \<and>
         timeoutMs \<le> snd (waitForDiagnostics_loop diagnostics_at uri timeoutMs start now) - start"
  using assms
proof (induction diagnostics_at uri timeoutMs start now rule: waitForDiagnostics_loop.induct)
  case (1 diagnostics_at uri timeoutMs start now)
  show ?case
  proof (cases "now - start < timeoutMs")
    case False
    then show ?thesis by (subst (1 2) waitForDiagnostics_loop.simps) simp
  next
    case True
    have no: "\<forall>v. diagnostics_at now uri \<noteq> Some (Some v)"
      using "1.prems" [rule_format, of 0] True by simp
    have step: "waitForDiagnostics_loop diagnostics_at uri timeoutMs start now =
        waitForDiagnostics_loop diagnostics_at uri timeoutMs start (now + 100)"
      using True no by (subst waitForDiagnostics_loop.simps) (auto split: option.splits)
    have later: "\<forall>k. now + 100 + 100 * int k - start < timeoutMs \<longrightarrow>
             (\<forall>v. diagnostics_at (now + 100 + 100 * int k) uri \<noteq> Some (Some v))"
    proof (intro allI impI)
      fix k v assume "now + 100 + 100 * int k - start < timeoutMs"
      then have "now + 100 * int (Suc k) - start < timeoutMs" by simp
      then have "diagnostics_at (now + 100 * int (Suc k)) uri \<noteq> Some (Some v)"
        using "1.prems" by blast
      then show "diagnostics_at (now + 100 + 100 * int k) uri \<noteq> Some (Some v)"
        by (simp add: algebra_simps)
    qed
    show ?thesis
    proof (cases "diagnostics_at now uri")
      case None
      from "1.IH"(1) [OF True None later] step show ?thesis by simp
    next
      case (Some e)
      with no have e: "e = None" by (cases e) auto
      from "1.IH"(2) [OF True Some e later] step show ?thesis by simp
    qed
  qed
qed

text \<open>
  C2, amended: \<open>waitForDiagnostics\<close> looks at the entry for the URI at the instants
  \<open>start\<close>, \<open>start + 100\<close>, \<open>start + 200\<close>, ... that lie less than \<open>timeoutMs\<close> after
  \<open>start\<close>. It returns the entry it finds at the first of these instants at which there is
  one (with a value other than \<open>undefined\<close>), at that instant; if there is none at any of
  them, it returns the empty array, not before the timeout has elapsed.
\<close>

theorem waitForDiagnostics_polls:
  "(\<forall>k d. 100 * int k < timeoutMs \<and>
       diagnostics_at (start + 100 * int k) uri = Some (Some d) \<and>
       (\<forall>j<k. \<forall>v. diagnostics_at (start + 100 * int j) uri \<noteq> Some (Some v)) \<longrightarrow>
     waitForDiagnostics diagnostics_at uri timeoutMs start = (d, start + 100 * int k)) \<and>
   ((\<forall>k. 100 * int k < timeoutMs \<longrightarrow>
       (\<forall>v. diagnostics_at (start + 100 * int k) uri \<noteq> Some (Some v))) \<longrightarrow>
     fst (waitForDiagnostics diagnostics_at uri timeoutMs start) = JArr [] \<and>
     timeoutMs \<le> snd (waitForDiagnostics diagnostics_at uri timeoutMs start) - start)"
proof (intro conjI allI impI)
  fix k d
  assume "100 * int k < timeoutMs \<and>
       diagnostics_at (start + 100 * int k) uri = Some (Some d) \<and>
       (\<forall>j<k. \<forall>v. diagnostics_at (start + 100 * int j) uri \<noteq> Some (Some v))"
  then show "waitForDiagnostics diagnostics_at uri timeoutMs start = (d, start + 100 * int k)"
    unfolding waitForDiagnostics_def
    by (intro waitForDiagnostics_loop_found) simp_all
next
  assume a: "\<forall>k. 100 * int k < timeoutMs \<longrightarrow>
       (\<forall>v. diagnostics_at (start + 100 * int k) uri \<noteq> Some (Some v))"
  then have "\<forall>k. start + 100 * int k - start < timeoutMs \<longrightarrow>
             (\<forall>v. diagnostics_at (start + 100 * int k) uri \<noteq> Some (Some v))" by simp
  from waitForDiagnostics_loop_timeout
    [where now = start and start = start and diagnostics_at = diagnostics_at, OF this]
  show "fst (waitForDiagnostics diagnostics_at uri timeoutMs start) = JArr []"
    and "timeoutMs \<le> snd (waitForDiagnostics diagnostics_at uri timeoutMs start) - start"
    by (simp_all add: waitForDiagnostics_def)
qed

theorem waitForDiagnostics_polls_witness:
  "waitForDiagnostics (pushed_at 200 (js ''file:///a.rs'') (Some (JArr [sample_diagnostic])))
     (js ''file:///a.rs'') 3000 0 = (JArr [sample_diagnostic], 200) \<and>
   fst (waitForDiagnostics (\<lambda>t. Map.empty) (js ''file:///a.rs'') 50 0) = JArr []"
proof -
  let ?d = "pushed_at 200 (js ''file:///a.rs'') (Some (JArr [sample_diagnostic]))"
  note polls = waitForDiagnostics_polls [of 3000 ?d 0 "js ''file:///a.rs''"]
  have a: "100 * int 2 < 3000 \<and>
       ?d (0 + 100 * int 2) (js ''file:///a.rs'') = Some (Some (JArr [sample_diagnostic])) \<and>
       (\<forall>j<2. \<forall>v. ?d (0 + 100 * int j) (js ''file:///a.rs'') \<noteq> Some (Some v))"
    by (simp add: pushed_at_def)
  from polls a have 1: "waitForDiagnostics ?d (js ''file:///a.rs'') 3000 0 =
      (JArr [sample_diagnostic], 0 + 100 * int 2)"
    by blast
  have 2: "fst (waitForDiagnostics (\<lambda>t. Map.empty) (js ''file:///a.rs'') 50 0) = JArr []"
    using waitForDiagnostics_polls [of 50 "\<lambda>t. Map.empty" 0 "js ''file:///a.rs''"] by simp
  from 1 2 show ?thesis by simp
qed

text \<open>
  C9, amended: if \<open>timeoutMs\<close> is positive and, when \<open>waitForDiagnostics\<close> is called, the
  URI has an entry with a value other than \<open>undefined\<close> (the empty array included), that
  entry is returned at once, at the time of the call. If the URI never gets an entry the
  result is the empty array as well. \<open>getDiagnostics\<close> returns the empty array for a URI
  without an entry.
\<close>

theorem waitForDiagnostics_existing_entry:
  "(0 < timeoutMs \<and> diagnostics_at start uri = Some (Some d) \<longrightarrow>
      waitForDiagnostics diagnostics_at uri timeoutMs start = (d, start)) \<and>
   ((\<forall>t. diagnostics_at t uri = None) \<longrightarrow>
      fst (waitForDiagnostics diagnostics_at uri timeoutMs start) = JArr []) \<and>
   (diagnostics c uri = None \<longrightarrow> getDiagnostics c uri = JArr [])"
proof (intro conjI impI)
  assume "0 < timeoutMs \<and> diagnostics_at start uri = Some (Some d)"
  then show "waitForDiagnostics diagnostics_at uri timeoutMs start = (d, start)"
    unfolding waitForDiagnostics_def by (subst waitForDiagnostics_loop.simps) simp
next
  assume "\<forall>t. diagnostics_at t uri = None"
  then have "\<forall>k. start + 100 * int k - start < timeoutMs \<longrightarrow>
             (\<forall>v. diagnostics_at (start + 100 * int k) uri \<noteq> Some (Some v))" by simp
  from waitForDiagnostics_loop_timeout
    [where now = start and start = start and diagnostics_at = diagnostics_at, OF this]
  show "fst (waitForDiagnostics diagnostics_at uri timeoutMs start) = JArr []"
    by (simp add: waitForDiagnostics_def)
next
  assume "diagnostics c uri = None"
  then show "getDiagnostics c uri = JArr []" by (simp add: getDiagnostics_def)
qed

theorem waitForDiagnostics_existing_entry_witness:
  "waitForDiagnostics (pushed_at 0 (js ''file:///a.rs'') (Some (JArr []))) (js ''file:///a.rs'') 3000 0 =
     (JArr [], 0) \<and>
   fst (waitForDiagnostics (\<lambda>t. Map.empty) (js ''file:///a.rs'') 50 0) = JArr [] \<and>
   getDiagnostics new_client (js ''file:///a.rs'') = JArr []"
proof -
  note e = waitForDiagnostics_existing_entry
    [of 3000 "pushed_at 0 (js ''file:///a.rs'') (Some (JArr []))" 0 "js ''file:///a.rs''" "JArr []" new_client]
  have a: "pushed_at 0 (js ''file:///a.rs'') (Some (JArr [])) 0 (js ''file:///a.rs'') = Some (Some (JArr []))"
    by (simp add: pushed_at_def)
  have n: "diagnostics new_client (js ''file:///a.rs'') = None" by (simp add: new_client_def)
  from e a have 1: "waitForDiagnostics (pushed_at 0 (js ''file:///a.rs'') (Some (JArr [])))
      (js ''file:///a.rs'') 3000 0 = (JArr [], 0)" by simp
  from e n have 3: "getDiagnostics new_client (js ''file:///a.rs'') = JArr []" by blast
  have 2: "fst (waitForDiagnostics (\<lambda>t. Map.empty) (js ''file:///a.rs'') 50 0) = JArr []"
    using waitForDiagnostics_existing_entry
      [of 50 "\<lambda>t. Map.empty" 0 "js ''file:///a.rs''" "JArr []" new_client] by simp
  from 1 2 3 show ?thesis by simp
qed

text \<open>
  C2 as stated fails: an entry that appears 30 ms after the call, within a timeout of
  50 ms, is not returned. The poll at the call finds nothing, and when the sleep ends,
  100 ms after the call, the timeout has elapsed.
\<close>

theorem waitForDiagnostics_between_polls_counterexample:
  "pushed_at 30 (js ''file:///a.rs'') (Some (JArr [sample_diagnostic])) 30 (js ''file:///a.rs'') =
     Some (Some (JArr [sample_diagnostic])) \<and> (30::int) < 50 \<and>
   waitForDiagnostics (pushed_at 30 (js ''file:///a.rs'') (Some (JArr [sample_diagnostic])))
     (js ''file:///a.rs'') 50 0 = (JArr [], 100)"
  by (simp add: waitForDiagnostics_def pushed_at_def waitForDiagnostics_loop.simps)

text \<open>
  C9 as stated fails for a timeout of 0: the loop condition fails before the first
  lookup, and the empty array is returned although the entry holds a diagnostic.
\<close>

theorem waitForDiagnostics_zero_timeout_counterexample:
  "pushed_at 0 (js ''file:///a.rs'') (Some (JArr [sample_diagnostic])) 0 (js ''file:///a.rs'') =
     Some (Some (JArr [sample_diagnostic])) \<and>
   waitForDiagnostics (pushed_at 0 (js ''file:///a.rs'') (Some (JArr [sample_diagnostic])))
     (js ''file:///a.rs'') 0 0 = (JArr [], 0)"
  by (simp add: waitForDiagnostics_def pushed_at_def waitForDiagnostics_loop.simps)

end
